theory Spec2Isabelle
  imports Complex_Main "HOL-Library.Char_ord" "HOL-Library.List_Lexorder"
begin

section \<open>The image blob store (apps/web/src/lib/imageBlobStore.ts)\<close>

text \<open>
  JavaScript numbers are modelled exactly: quantities that the application counts
  (byte sizes, timestamps, seeds, batch counts, the id counter) as \<^typ>\<open>int\<close>, which
  leaves fractions and \<open>NaN\<close> out, and quantities that the source divides or that
  come from dragging (megabytes, percentages, layout coordinates) as \<^typ>\<open>real\<close>.
  A seed is any number the caller passes, so the one addition on seeds is modelled with
  the rounding of IEEE doubles; the other integer quantities start at 0 and grow in
  small steps, and are taken below \<open>2^53\<close>, where doubles are exact. Rounding errors of
  doubles in the real-valued quantities and failing IndexedDB requests (every function
  of the module catches them) are outside the model.
\<close>

subsection \<open>Data\<close>

definition MAX_IMAGES :: nat where
  "MAX_IMAGES = 500"

definition MAX_STORAGE_MB :: int where
  "MAX_STORAGE_MB = 4096"

definition WARNING_THRESHOLD_PERCENT :: real where
  "WARNING_THRESHOLD_PERCENT = 80"

text \<open>A \<open>Blob\<close> is the list of its bytes; \<open>blob.size\<close> is the length of the list.\<close>

type_synonym Blob = "nat list"

text \<open>\<open>interface BlobMeta\<close>; the fields \<open>id\<close> and \<open>size\<close> carry a prefix because HOL
  already has constants of these names.\<close>

record BlobMeta =
  meta_id :: string
  meta_size :: int
  createdAt :: int
  lastAccessedAt :: int

text \<open>The database: the object store \<open>blobs\<close> (key to binary) and the object store
  \<open>meta\<close> (records keyed by their \<open>id\<close>, hence at most one record per id).\<close>

record BlobDB =
  blobs :: "string \<rightharpoonup> Blob"
  meta :: "BlobMeta list"

definition empty_db :: BlobDB where
  "empty_db = \<lparr>blobs = Map.empty, meta = []\<rparr>"

subsection \<open>Primitive requests on the metadata store\<close>

text \<open>\<open>db.get(META_STORE, id)\<close>\<close>

definition meta_get :: "BlobMeta list \<Rightarrow> string \<Rightarrow> BlobMeta option" where
  "meta_get ms i = find (\<lambda>m. meta_id m = i) ms"

text \<open>\<open>db.put(META_STORE, m)\<close>: the key path is \<open>id\<close>, so a record with the same id is
  replaced.\<close>

definition meta_put :: "BlobMeta \<Rightarrow> BlobMeta list \<Rightarrow> BlobMeta list" where
  "meta_put m ms =
     (if meta_id m \<in> meta_id ` set ms
      then map (\<lambda>m'. if meta_id m' = meta_id m then m else m') ms
      else ms @ [m])"

text \<open>\<open>db.delete(META_STORE, id)\<close>\<close>

definition meta_delete :: "string \<Rightarrow> BlobMeta list \<Rightarrow> BlobMeta list" where
  "meta_delete i ms = filter (\<lambda>m. meta_id m \<noteq> i) ms"

text \<open>The index \<open>lastAccessedAt\<close> orders the records by that field and, among equal
  values, by primary key; \<open>index.openCursor()\<close> stands on its first record.\<close>

definition index_le :: "BlobMeta \<Rightarrow> BlobMeta \<Rightarrow> bool" where
  "index_le a b \<longleftrightarrow>
     lastAccessedAt a < lastAccessedAt b \<or>
     (lastAccessedAt a = lastAccessedAt b \<and> meta_id a \<le> meta_id b)"

fun openCursor :: "BlobMeta list \<Rightarrow> BlobMeta option" where
  "openCursor [] = None"
| "openCursor (m # ms) =
     (case openCursor ms of
        None \<Rightarrow> Some m
      | Some m' \<Rightarrow> if index_le m m' then Some m else Some m')"

subsection \<open>Operations\<close>

definition getBlobCount :: "BlobDB \<Rightarrow> nat" where
  "getBlobCount db = length (meta db)"

definition getTotalStorageSize :: "BlobDB \<Rightarrow> int" where
  "getTotalStorageSize db = foldl (\<lambda>sum m. sum + meta_size m) 0 (meta db)"

definition maxStorageBytes :: int where
  "maxStorageBytes = MAX_STORAGE_MB * 1024 * 1024"

text \<open>\<open>Math.round((totalSize / 1024 / 1024) * 10) / 10\<close>; \<open>Math.round\<close> rounds halves
  upwards, as \<^const>\<open>round\<close> does.\<close>

definition sizeMB :: "int \<Rightarrow> real" where
  "sizeMB totalSize = real_of_int (round ((real_of_int totalSize / 1024 / 1024) * 10)) / 10"

datatype Reason = Count | Size

record LimitCheck =
  needsCleanup :: bool
  reason :: "Reason option"
  currentCount :: nat
  currentSizeMB :: real

definition checkStorageLimit :: "int \<Rightarrow> BlobDB \<Rightarrow> LimitCheck option" where
  "checkStorageLimit newBlobSize db =
     (let count = getBlobCount db;
          totalSize = getTotalStorageSize db;
          totalSizeMB = sizeMB totalSize
      in if count \<ge> MAX_IMAGES then
           Some \<lparr>needsCleanup = True, reason = Some Count,
                 currentCount = count, currentSizeMB = totalSizeMB\<rparr>
         else if totalSize + newBlobSize > maxStorageBytes then
           Some \<lparr>needsCleanup = True, reason = Some Size,
                 currentCount = count, currentSizeMB = totalSizeMB\<rparr>
         else None)"

definition deleteBlob :: "string \<Rightarrow> BlobDB \<Rightarrow> BlobDB" where
  "deleteBlob i db = db\<lparr>blobs := (blobs db)(i := None), meta := meta_delete i (meta db)\<rparr>"

text \<open>\<open>deleteBlobs\<close>: the loop over \<open>ids\<close> inside one transaction.\<close>

fun deleteBlobs :: "string list \<Rightarrow> BlobDB \<Rightarrow> BlobDB" where
  "deleteBlobs [] db = db"
| "deleteBlobs (i # ids) db = deleteBlobs ids (deleteBlob i db)"

definition clearAllBlobs :: "BlobDB \<Rightarrow> BlobDB" where
  "clearAllBlobs db = db\<lparr>blobs := Map.empty, meta := []\<rparr>"

text \<open>\<open>storeBlob\<close> reads the clock twice (\<open>t1\<close> for \<open>createdAt\<close>, \<open>t2\<close> for
  \<open>lastAccessedAt\<close>) and returns the id.\<close>

definition storeBlob :: "int \<Rightarrow> int \<Rightarrow> string \<Rightarrow> Blob \<Rightarrow> BlobDB \<Rightarrow> string option \<times> BlobDB" where
  "storeBlob t1 t2 i blob db =
     (Some i,
      db\<lparr>blobs := (blobs db)(i \<mapsto> blob),
         meta := meta_put \<lparr>meta_id = i, meta_size = int (length blob),
                           createdAt = t1, lastAccessedAt = t2\<rparr> (meta db)\<rparr>)"

text \<open>\<open>getBlob\<close>, with \<open>now\<close> the value of \<open>Date.now()\<close>. A stored \<open>Blob\<close> is an object,
  hence truthy.\<close>

definition getBlob :: "int \<Rightarrow> string \<Rightarrow> BlobDB \<Rightarrow> Blob option \<times> BlobDB" where
  "getBlob now i db =
     (case blobs db i of
        None \<Rightarrow> (None, db)
      | Some blob \<Rightarrow>
          (Some blob,
           case meta_get (meta db) i of
             None \<Rightarrow> db
           | Some m \<Rightarrow> db\<lparr>meta := meta_put (m\<lparr>lastAccessedAt := now\<rparr>) (meta db)\<rparr>))"

text \<open>\<open>removeOldestBlob\<close>: the source returns \<open>true\<close> after deleting the record under
  the cursor and writing its id to the console, \<open>false\<close> when there is no record. The
  model returns the deleted record in place of \<open>true\<close> and \<open>None\<close> in place of
  \<open>false\<close>.\<close>

definition removeOldestBlob :: "BlobDB \<Rightarrow> BlobMeta option \<times> BlobDB" where
  "removeOldestBlob db =
     (case openCursor (meta db) of
        Some oldest \<Rightarrow> (Some oldest, deleteBlob (meta_id oldest) db)
      | None \<Rightarrow> (None, db))"

text \<open>The condition of the \<open>while\<close> loop of \<open>cleanupForNewBlob\<close>; \<open>count\<close> and
  \<open>totalSize\<close> are read again after every removal, so it is a function of the database.\<close>

definition over_limit :: "int \<Rightarrow> BlobDB \<Rightarrow> bool" where
  "over_limit newBlobSize db \<longleftrightarrow>
     getBlobCount db \<ge> MAX_IMAGES \<or> getTotalStorageSize db + newBlobSize > maxStorageBytes"

lemma openCursor_mem: "openCursor ms = Some m \<Longrightarrow> m \<in> set ms"
  by (induction ms arbitrary: m) (auto split: option.splits if_splits)

lemma removeOldestBlob_shrinks:
  assumes "removeOldestBlob db = (Some m, db')"
  shows "length (meta db') < length (meta db)"
proof -
  from assms have c: "openCursor (meta db) = Some m" and d: "db' = deleteBlob (meta_id m) db"
    by (auto simp: removeOldestBlob_def split: option.splits)
  from c have "m \<in> set (meta db)" by (rule openCursor_mem)
  then have "length (filter (\<lambda>m'. meta_id m' \<noteq> meta_id m) (meta db)) < length (meta db)"
    by (intro length_filter_less[of m]) auto
  with d show ?thesis by (simp add: deleteBlob_def meta_delete_def)
qed

text \<open>The loop of \<open>cleanupForNewBlob\<close>. It returns the records removed, in the order of
  their removal, and the database it leaves.\<close>

function cleanup_loop :: "int \<Rightarrow> BlobDB \<Rightarrow> BlobMeta list \<times> BlobDB" where
  "cleanup_loop newBlobSize db =
     (if over_limit newBlobSize db then
        (case removeOldestBlob db of
           (None, _) \<Rightarrow> ([], db)
         | (Some m, db') \<Rightarrow>
             (case cleanup_loop newBlobSize db' of (ms, db'') \<Rightarrow> (m # ms, db'')))
      else ([], db))"
  by pat_completeness auto
termination
  by (relation "measure (\<lambda>(k, db). length (meta db))")
     (auto dest: removeOldestBlob_shrinks[OF sym])

declare cleanup_loop.simps [simp del]


record StorageInfo =
  info_count :: nat
  totalSizeMB :: real
  maxImages :: nat
  maxStorageMB :: int
  isNearLimit :: bool

definition getStorageInfo :: "BlobDB \<Rightarrow> StorageInfo" where
  "getStorageInfo db =
     (let count = getBlobCount db;
          totalSize = getTotalStorageSize db;
          totalSizeMB = sizeMB totalSize;
          countPercent = (real count / real MAX_IMAGES) * 100;
          sizePercent = (totalSizeMB / real_of_int MAX_STORAGE_MB) * 100
      in \<lparr>info_count = count, totalSizeMB = totalSizeMB,
          maxImages = MAX_IMAGES, maxStorageMB = MAX_STORAGE_MB,
          isNearLimit = (countPercent \<ge> WARNING_THRESHOLD_PERCENT \<or>
                         sizePercent \<ge> WARNING_THRESHOLD_PERCENT)\<rparr>)"

section \<open>The flow store (apps/web/src/stores/flowStore.ts)\<close>

subsection \<open>Identifiers\<close>

text \<open>The template literals \<open>`config-${n}`\<close> and \<open>`image-${n}`\<close> print the integer \<open>n\<close> in
  decimal, with a leading minus sign when it is negative.\<close>

definition digit_char :: "nat \<Rightarrow> char" where
  "digit_char d = ''0123456789'' ! d"

fun digits :: "nat \<Rightarrow> string" where
  "digits n = (if n < 10 then [digit_char n] else digits (n div 10) @ [digit_char (n mod 10)])"

declare digits.simps [simp del]

definition show_int :: "int \<Rightarrow> string" where
  "show_int i = (if i < 0 then CHR ''-'' # digits (nat (- i)) else digits (nat i))"

subsection \<open>Addition of doubles on integers\<close>

text \<open>A double holds every integer of magnitude up to \<open>2^53\<close>; beyond, it holds the
  multiples of \<open>2^e\<close> for the magnitudes from \<open>2^(52+e)\<close> to \<open>2^(53+e)\<close>. The sum of two
  doubles is the exact sum rounded to the nearest double, a tie going to the double
  with the even significand. (Overflow to infinity, above \<open>2^1024\<close>, is left out.)\<close>

fun spacing_exp :: "nat \<Rightarrow> nat" where
  "spacing_exp m = (if m < 2 ^ 53 then 0 else Suc (spacing_exp (m div 2)))"

declare spacing_exp.simps [simp del]

definition round_half_even :: "int \<Rightarrow> nat \<Rightarrow> int" where
  "round_half_even n e =
     (let q = n div 2 ^ e; r = n mod 2 ^ e
      in (if 2 * r < 2 ^ e then q
          else if 2 * r > 2 ^ e then q + 1
          else if even q then q else q + 1) * 2 ^ e)"

definition to_double :: "int \<Rightarrow> int" where
  "to_double n = round_half_even n (spacing_exp (nat \<bar>n\<bar>))"

definition js_add :: "int \<Rightarrow> int \<Rightarrow> int" where
  "js_add a b = to_double (a + b)"

subsection \<open>Data\<close>

definition FIRST_CONFIG_X :: real where
  "FIRST_CONFIG_X = 100"

definition FIRST_CONFIG_Y :: real where
  "FIRST_CONFIG_Y = 100"

definition CONFIG_SPACING :: real where
  "CONFIG_SPACING = 350"

definition IMAGE_OFFSET_Y :: real where
  "IMAGE_OFFSET_Y = 220"

definition IMAGE_SPACING_Y :: real where
  "IMAGE_SPACING_Y = 280"

record Position =
  pos_x :: real
  pos_y :: real

record PreviewConfigInput =
  prompt :: string
  width :: int
  height :: int
  batchCount :: int
  seed :: int

text \<open>\<open>ConfigData\<close> has the fields of \<open>PreviewConfigInput\<close> and three more.\<close>

record ConfigData = PreviewConfigInput +
  config_id :: string
  timestamp :: int
  isPreview :: bool

record ImageData =
  image_id :: string
  configId :: string
  image_prompt :: string
  image_width :: int
  image_height :: int
  image_seed :: int
  imageUrl :: "string option"
  imageBlobId :: "string option"
  duration :: "string option"
  isLoading :: bool
  error :: "string option"

text \<open>\<open>Node<T>\<close> of the graph library, with the fields the store sets.\<close>

record 'd Node =
  node_id :: string
  node_type :: string
  position :: Position
  data :: 'd
  draggable :: bool

text \<open>\<open>StorageLimitState\<close> has the fields of the result of \<open>checkStorageLimit\<close> and the
  pending image.\<close>

record StorageLimitState = LimitCheck +
  pendingImageId :: "string option"
  pendingBlob :: "Blob option"

record FlowState =
  configNodes :: "ConfigData Node list"
  imageNodes :: "ImageData Node list"
  previewConfig :: "ConfigData option"
  editingConfigId :: "string option"
  isEditingModified :: bool
  lightboxImageId :: "string option"
  storageLimitState :: "StorageLimitState option"
  nodeIdCounter :: int
  hasHydrated :: bool

definition initial_state :: FlowState where
  "initial_state =
     \<lparr>configNodes = [], imageNodes = [], previewConfig = None, editingConfigId = None,
      isEditingModified = False, lightboxImageId = None, storageLimitState = None,
      nodeIdCounter = 0, hasHydrated = False\<rparr>"

subsection \<open>Actions\<close>

definition getNextConfigPosition :: "FlowState \<Rightarrow> Position" where
  "getNextConfigPosition state =
     (let confirmedCount = length (configNodes state)
      in \<lparr>pos_x = FIRST_CONFIG_X + real confirmedCount * CONFIG_SPACING,
          pos_y = FIRST_CONFIG_Y\<rparr>)"

text \<open>\<open>setPreviewConfig\<close>, with \<open>now\<close> the value of \<open>Date.now()\<close>.\<close>

definition setPreviewConfig :: "PreviewConfigInput option \<Rightarrow> int \<Rightarrow> FlowState \<Rightarrow> FlowState" where
  "setPreviewConfig config now state =
     (case config of
        None \<Rightarrow> state\<lparr>previewConfig := None\<rparr>
      | Some c \<Rightarrow>
          state\<lparr>previewConfig := Some
            \<lparr>prompt = prompt c, width = width c, height = height c,
             batchCount = batchCount c, seed = seed c,
             config_id = ''preview-'' @ show_int (nodeIdCounter state + 1),
             timestamp = now, isPreview = True\<rparr>\<rparr>)"

text \<open>The image node that the loop of \<open>confirmConfig\<close> pushes at index \<open>i\<close>.\<close>

definition newImageNode :: "FlowState \<Rightarrow> ConfigData \<Rightarrow> string \<Rightarrow> Position \<Rightarrow> int \<Rightarrow> ImageData Node" where
  "newImageNode state configToConfirm newConfigId pos i =
     (let imageId = ''image-'' @ show_int (nodeIdCounter state + 2 + i)
      in \<lparr>node_id = imageId, node_type = ''imageNode'',
          position = \<lparr>pos_x = pos_x pos,
                      pos_y = pos_y pos + IMAGE_OFFSET_Y + real_of_int i * IMAGE_SPACING_Y\<rparr>,
          data = \<lparr>image_id = imageId, configId = newConfigId,
                  image_prompt = prompt configToConfirm,
                  image_width = width configToConfirm,
                  image_height = height configToConfirm,
                  image_seed = js_add (seed configToConfirm) i,
                  imageUrl = None, imageBlobId = None, duration = None,
                  isLoading = True, error = None\<rparr>,
          draggable = False\<rparr>)"

text \<open>\<open>for (let i = 0; i < configToConfirm.batchCount; i++) newImageNodes.push(...)\<close>\<close>

function newImageNodes_loop ::
  "FlowState \<Rightarrow> ConfigData \<Rightarrow> string \<Rightarrow> Position \<Rightarrow> int \<Rightarrow> ImageData Node list \<Rightarrow> ImageData Node list" where
  "newImageNodes_loop state configToConfirm newConfigId pos i newImageNodes =
     (if i < batchCount configToConfirm
      then newImageNodes_loop state configToConfirm newConfigId pos (i + 1)
             (newImageNodes @ [newImageNode state configToConfirm newConfigId pos i])
      else newImageNodes)"
  by pat_completeness auto
termination
  by (relation "measure (\<lambda>(state, c, newConfigId, pos, i, acc). nat (batchCount c - i))") auto

declare newImageNodes_loop.simps [simp del]

definition confirmConfig :: "FlowState \<Rightarrow> string option \<times> FlowState" where
  "confirmConfig state =
     (case previewConfig state of
        None \<Rightarrow> (None, state)
      | Some configToConfirm \<Rightarrow>
          (let newConfigId = ''config-'' @ show_int (nodeIdCounter state + 1);
               pos = getNextConfigPosition state;
               newConfigNode =
                 \<lparr>node_id = newConfigId, node_type = ''configNode'', position = pos,
                  data = configToConfirm\<lparr>config_id := newConfigId, isPreview := False\<rparr>,
                  draggable = True\<rparr>;
               newImageNodes = newImageNodes_loop state configToConfirm newConfigId pos 0 []
           in (Some newConfigId,
               state\<lparr>configNodes := configNodes state @ [newConfigNode],
                     imageNodes := imageNodes state @ newImageNodes,
                     previewConfig := None,
                     editingConfigId := None,
                     isEditingModified := False,
                     nodeIdCounter := nodeIdCounter state + 1 + batchCount configToConfirm\<rparr>)))"

definition loadConfigForEditing :: "string \<Rightarrow> FlowState \<Rightarrow> ConfigData option \<times> FlowState" where
  "loadConfigForEditing cid state =
     (case find (\<lambda>n. node_id n = cid) (configNodes state) of
        None \<Rightarrow> (None, state)
      | Some configNode \<Rightarrow>
          (Some (data configNode),
           state\<lparr>editingConfigId := Some cid, isEditingModified := False,
                 previewConfig := None\<rparr>))"

definition clearEditing :: "FlowState \<Rightarrow> FlowState" where
  "clearEditing state = state\<lparr>editingConfigId := None, isEditingModified := False\<rparr>"

definition setEditingModified :: "bool \<Rightarrow> FlowState \<Rightarrow> FlowState" where
  "setEditingModified modified state = state\<lparr>isEditingModified := modified\<rparr>"

definition updateConfigPosition :: "string \<Rightarrow> real \<Rightarrow> real \<Rightarrow> FlowState \<Rightarrow> FlowState" where
  "updateConfigPosition cid x y state =
     (case find (\<lambda>n. node_id n = cid) (configNodes state) of
        None \<Rightarrow> state
      | Some configNode \<Rightarrow>
          (let deltaX = x - pos_x (position configNode);
               deltaY = y - pos_y (position configNode);
               updatedConfigNodes =
                 map (\<lambda>n. if node_id n = cid then n\<lparr>position := \<lparr>pos_x = x, pos_y = y\<rparr>\<rparr> else n)
                   (configNodes state);
               updatedImageNodes =
                 map (\<lambda>n. if configId (data n) = cid
                          then n\<lparr>position := \<lparr>pos_x = pos_x (position n) + deltaX,
                                               pos_y = pos_y (position n) + deltaY\<rparr>\<rparr>
                          else n)
                   (imageNodes state)
           in state\<lparr>configNodes := updatedConfigNodes, imageNodes := updatedImageNodes\<rparr>))"

definition updateImageGenerated ::
  "string \<Rightarrow> string \<Rightarrow> string \<Rightarrow> string option \<Rightarrow> FlowState \<Rightarrow> FlowState" where
  "updateImageGenerated imageId url dur blobId state =
     state\<lparr>imageNodes :=
       map (\<lambda>n. if node_id n = imageId
                then n\<lparr>data := (data n)\<lparr>imageUrl := Some url, imageBlobId := blobId,
                                          duration := Some dur, isLoading := False\<rparr>\<rparr>
                else n)
         (imageNodes state)\<rparr>"

definition updateImageError :: "string \<Rightarrow> string \<Rightarrow> FlowState \<Rightarrow> FlowState" where
  "updateImageError imageId err state =
     state\<lparr>imageNodes :=
       map (\<lambda>n. if node_id n = imageId
                then n\<lparr>data := (data n)\<lparr>error := Some err, isLoading := False\<rparr>\<rparr>
                else n)
         (imageNodes state)\<rparr>"

definition setLightboxImage :: "string option \<Rightarrow> FlowState \<Rightarrow> FlowState" where
  "setLightboxImage imageId state = state\<lparr>lightboxImageId := imageId\<rparr>"

definition setStorageLimitState :: "StorageLimitState option \<Rightarrow> FlowState \<Rightarrow> FlowState" where
  "setStorageLimitState st state = state\<lparr>storageLimitState := st\<rparr>"

definition clearStorageLimitState :: "FlowState \<Rightarrow> FlowState" where
  "clearStorageLimitState state = state\<lparr>storageLimitState := None\<rparr>"

text \<open>The truth value of an optional string: \<open>undefined\<close> and the empty string are falsy.\<close>

definition truthy :: "string option \<Rightarrow> bool" where
  "truthy v = (case v of None \<Rightarrow> False | Some str \<Rightarrow> str \<noteq> [])"

text \<open>The blob ids that \<open>deleteConfig\<close> collects.\<close>

definition deleteConfig_blobIds :: "string \<Rightarrow> FlowState \<Rightarrow> string list" where
  "deleteConfig_blobIds cid state =
     map (\<lambda>n. the (imageBlobId (data n)))
       (filter (\<lambda>n. configId (data n) = cid \<and> truthy (imageBlobId (data n)))
         (imageNodes state))"

text \<open>\<open>deleteConfig\<close> and \<open>clearAll\<close> act on the store and on the blob database. The
  source starts the deletion of the blobs without waiting for it; the model applies it
  at once.\<close>

definition deleteConfig :: "string \<Rightarrow> FlowState \<times> BlobDB \<Rightarrow> FlowState \<times> BlobDB" where
  "deleteConfig cid = (\<lambda>(state, db).
     (let blobIds = deleteConfig_blobIds cid state
      in (state\<lparr>configNodes := filter (\<lambda>n. node_id n \<noteq> cid) (configNodes state),
                imageNodes := filter (\<lambda>n. configId (data n) \<noteq> cid) (imageNodes state)\<rparr>,
          if length blobIds > 0 then deleteBlobs blobIds db else db)))"

definition clearAll :: "FlowState \<times> BlobDB \<Rightarrow> FlowState \<times> BlobDB" where
  "clearAll = (\<lambda>(state, db).
     (state\<lparr>configNodes := [], imageNodes := [], previewConfig := None,
            editingConfigId := None, isEditingModified := False,
            lightboxImageId := None, nodeIdCounter := 0\<rparr>,
      clearAllBlobs db))"

subsection \<open>Sequences of actions\<close>

datatype Action =
    SetPreviewConfig "PreviewConfigInput option" int
  | ConfirmConfig
  | LoadConfigForEditing string
  | ClearEditing
  | SetEditingModified bool
  | UpdateConfigPosition string real real
  | UpdateImageGenerated string string string "string option"
  | UpdateImageError string string
  | SetLightboxImage "string option"
  | SetStorageLimitState "StorageLimitState option"
  | ClearStorageLimitState
  | DeleteConfig string
  | ClearAll

fun step :: "Action \<Rightarrow> FlowState \<times> BlobDB \<Rightarrow> FlowState \<times> BlobDB" where
  "step (SetPreviewConfig config now) (state, db) = (setPreviewConfig config now state, db)"
| "step ConfirmConfig (state, db) = (snd (confirmConfig state), db)"
| "step (LoadConfigForEditing cid) (state, db) = (snd (loadConfigForEditing cid state), db)"
| "step ClearEditing (state, db) = (clearEditing state, db)"
| "step (SetEditingModified modified) (state, db) = (setEditingModified modified state, db)"
| "step (UpdateConfigPosition cid x y) (state, db) = (updateConfigPosition cid x y state, db)"
| "step (UpdateImageGenerated imageId url dur blobId) (state, db) =
     (updateImageGenerated imageId url dur blobId state, db)"
| "step (UpdateImageError imageId err) (state, db) = (updateImageError imageId err state, db)"
| "step (SetLightboxImage imageId) (state, db) = (setLightboxImage imageId state, db)"
| "step (SetStorageLimitState st) (state, db) = (setStorageLimitState st state, db)"
| "step ClearStorageLimitState (state, db) = (clearStorageLimitState state, db)"
| "step (DeleteConfig cid) (state, db) = deleteConfig cid (state, db)"
| "step ClearAll (state, db) = clearAll (state, db)"

text \<open>The state after the actions \<open>acts\<close>, the first of the list first.\<close>

fun run :: "Action list \<Rightarrow> FlowState \<times> BlobDB \<Rightarrow> FlowState \<times> BlobDB" where
  "run [] st = st"
| "run (a # acts) st = run acts (step a st)"

section \<open>Notions used in the statements\<close>


text \<open>Successive calls of \<open>getBlob\<close>, each with the clock reading it obtains.\<close>

fun getBlobs :: "(int \<times> string) list \<Rightarrow> BlobDB \<Rightarrow> BlobDB" where
  "getBlobs [] db = db"
| "getBlobs ((now, i) # calls) db = getBlobs calls (snd (getBlob now i db))"

text \<open>The clock does not run backwards: the readings \<open>ts\<close> are in non-decreasing order
  and none of them lies before a time stamp that the database already holds.\<close>

definition clock_ok :: "int list \<Rightarrow> BlobDB \<Rightarrow> bool" where
  "clock_ok ts db \<longleftrightarrow>
     sorted ts \<and> list_all (\<lambda>m. list_all (\<lambda>t. lastAccessedAt m \<le> t) ts) (meta db)"

text \<open>The image nodes that a step from \<open>s\<close> to \<open>s'\<close> has appended.\<close>

definition created_images :: "FlowState \<Rightarrow> FlowState \<Rightarrow> ImageData Node list" where
  "created_images s s' = drop (length (imageNodes s)) (imageNodes s')"

text \<open>The batch counts of the previews that the calls of \<open>confirmConfig\<close> among the
  actions \<open>acts\<close> confirm, when the actions run from the state \<open>st\<close>.\<close>

fun confirmed_batchCounts :: "Action list \<Rightarrow> FlowState \<times> BlobDB \<Rightarrow> int list" where
  "confirmed_batchCounts [] st = []"
| "confirmed_batchCounts (ConfirmConfig # acts) st =
     (case previewConfig (fst st) of None \<Rightarrow> [] | Some p \<Rightarrow> [batchCount p])
       @ confirmed_batchCounts acts (step ConfirmConfig st)"
| "confirmed_batchCounts (a # acts) st = confirmed_batchCounts acts (step a st)"

text \<open>The actions that remove nodes.\<close>

fun deletes :: "Action \<Rightarrow> bool" where
  "deletes (DeleteConfig cid) = True"
| "deletes ClearAll = True"
| "deletes a = False"

definition deletes_nothing :: "Action list \<Rightarrow> bool" where
  "deletes_nothing acts = list_all (\<lambda>a. \<not> deletes a) acts"

text \<open>Every preview handed to \<open>setPreviewConfig\<close> has a batch count of at least 0.\<close>

definition nonneg_batches :: "Action list \<Rightarrow> bool" where
  "nonneg_batches acts =
     list_all (\<lambda>a. case a of
                     SetPreviewConfig (Some c) now \<Rightarrow> 0 \<le> batchCount c
                   | _ \<Rightarrow> True) acts"

subsection \<open>Notions used in the proofs\<close>

text \<open>The result of the loop of \<open>confirmConfig\<close> in closed form.\<close>

definition created_by :: "FlowState \<Rightarrow> ConfigData \<Rightarrow> ImageData Node list" where
  "created_by s p =
     map (newImageNode s p (''config-'' @ show_int (nodeIdCounter s + 1)) (getNextConfigPosition s))
       [0..batchCount p - 1]"

text \<open>Reading a decimal numeral back, the left inverse of \<^const>\<open>digits\<close>.\<close>

definition digit_val :: "char \<Rightarrow> nat" where
  "digit_val c = length (takeWhile (\<lambda>x. x \<noteq> c) ''0123456789'')"

definition undigits :: "string \<Rightarrow> nat" where
  "undigits cs = foldl (\<lambda>a c. 10 * a + digit_val c) 0 cs"

text \<open>The invariant behind the distinct ids: every id carries a number up to the
  counter, and no pending preview has a negative batch count.\<close>

definition ids_inv :: "FlowState \<Rightarrow> bool" where
  "ids_inv s \<longleftrightarrow>
     0 \<le> nodeIdCounter s \<and>
     (\<forall>p. previewConfig s = Some p \<longrightarrow> 0 \<le> batchCount p) \<and>
     (\<forall>n\<in>set (configNodes s). \<exists>k. k \<le> nodeIdCounter s \<and> node_id n = ''config-'' @ show_int k) \<and>
     (\<forall>n\<in>set (imageNodes s). \<exists>k. k \<le> nodeIdCounter s \<and> node_id n = ''image-'' @ show_int k) \<and>
     distinct (map node_id (configNodes s)) \<and>
     distinct (map node_id (imageNodes s))"

text \<open>Every image node is owned by a configuration node of the graph.\<close>

definition owners_present :: "FlowState \<Rightarrow> bool" where
  "owners_present s \<longleftrightarrow>
     list_all (\<lambda>n. configId (data n) \<in> node_id ` set (configNodes s)) (imageNodes s)"

section \<open>Example inputs\<close>

text \<open>One record of 3435921408 bytes, that is 3276.75 MiB.\<close>

definition big_db :: BlobDB where
  "big_db =
     \<lparr>blobs = [''a'' \<mapsto> replicate 3435921408 0],
      meta = [\<lparr>meta_id = ''a'', meta_size = 3435921408, createdAt = 0, lastAccessedAt = 0\<rparr>]\<rparr>"

text \<open>Three blobs of 2 GiB each, stored at the times 30, 10 and 20.\<close>

definition GiB2 :: Blob where
  "GiB2 = replicate 2147483648 0"

definition three_blobs :: BlobDB where
  "three_blobs =
     snd (storeBlob 20 20 ''c'' GiB2
       (snd (storeBlob 10 10 ''b'' GiB2
         (snd (storeBlob 30 30 ''a'' GiB2 empty_db)))))"

definition meta_a :: BlobMeta where
  "meta_a = \<lparr>meta_id = ''a'', meta_size = 2147483648, createdAt = 30, lastAccessedAt = 30\<rparr>"

definition meta_b :: BlobMeta where
  "meta_b = \<lparr>meta_id = ''b'', meta_size = 2147483648, createdAt = 10, lastAccessedAt = 10\<rparr>"

definition meta_c :: BlobMeta where
  "meta_c = \<lparr>meta_id = ''c'', meta_size = 2147483648, createdAt = 20, lastAccessedAt = 20\<rparr>"

text \<open>A candidate one byte larger than the byte ceiling.\<close>

definition too_big :: int where
  "too_big = 4096 * 1024 * 1024 + 1"

text \<open>One small blob, stored at time 10.\<close>

definition one_blob :: BlobDB where
  "one_blob = snd (storeBlob 10 10 ''a'' [1, 2, 3] empty_db)"

text \<open>A store at the count ceiling: 500 blobs of one byte each.\<close>

definition full_db :: BlobDB where
  "full_db =
     \<lparr>blobs = (\<lambda>i. if i \<in> set (map (\<lambda>n. show_int (int n)) [0..<500]) then Some [0] else None),
      meta = map (\<lambda>n. \<lparr>meta_id = show_int (int n), meta_size = 1,
                          createdAt = int n, lastAccessedAt = int n\<rparr>) [0..<500]\<rparr>"


text \<open>Inputs and states of the flow store.\<close>

definition cat3 :: PreviewConfigInput where
  "cat3 = \<lparr>prompt = ''cat'', width = 1024, height = 1024, batchCount = 3, seed = 10\<rparr>"

definition dog2 :: PreviewConfigInput where
  "dog2 = \<lparr>prompt = ''dog'', width = 512, height = 768, batchCount = 2, seed = 7\<rparr>"

definition negative_batch :: PreviewConfigInput where
  "negative_batch = \<lparr>prompt = ''cat'', width = 1024, height = 1024, batchCount = - 1, seed = 10\<rparr>"

definition preview_cat3 :: FlowState where
  "preview_cat3 = setPreviewConfig (Some cat3) 1000 initial_state"

text \<open>A preview whose seed is \<open>2^53\<close>.\<close>

definition big_seed :: PreviewConfigInput where
  "big_seed =
     \<lparr>prompt = ''cat'', width = 1024, height = 1024, batchCount = 4,
      seed = 9007199254740992\<rparr>"

definition preview_big_seed :: FlowState where
  "preview_big_seed = setPreviewConfig (Some big_seed) 1000 initial_state"

definition two_confirms :: "Action list" where
  "two_confirms =
     [SetPreviewConfig (Some cat3) 1000, ConfirmConfig,
      SetPreviewConfig (Some dog2) 2000, ConfirmConfig, ConfirmConfig]"

definition negative_twice :: "Action list" where
  "negative_twice =
     [SetPreviewConfig (Some negative_batch) 1000, ConfirmConfig,
      SetPreviewConfig (Some negative_batch) 2000, ConfirmConfig]"

definition preview_dog2_second :: FlowState where
  "preview_dog2_second = setPreviewConfig (Some dog2) 2000 (snd (confirmConfig preview_cat3))"

definition confirmed_dog2 :: FlowState where
  "confirmed_dog2 = snd (confirmConfig (setPreviewConfig (Some dog2) 2000 initial_state))"

definition at_origin :: FlowState where
  "at_origin = updateConfigPosition ''config-1'' 0 0 confirmed_dog2"

definition two_stored :: BlobDB where
  "two_stored =
     snd (storeBlob 40 40 ''other'' [4, 5]
       (snd (storeBlob 30 30 ''image-2'' [1, 2, 3] empty_db)))"

definition generated_one :: "Action list" where
  "generated_one =
     [SetPreviewConfig (Some dog2) 2000, ConfirmConfig,
      UpdateImageGenerated ''image-2'' ''blob:1'' ''1.2s'' (Some ''image-2'')]"

section \<open>Identifiers are printed injectively\<close>

lemma less_10_cases:
  "(d::nat) < 10 \<Longrightarrow> d \<in> {0, 1, 2, 3, 4, 5, 6, 7, 8, 9}"
  by (simp add: eval_nat_numeral less_Suc_eq) 

lemma digit_val_digit_char: "d < 10 \<Longrightarrow> digit_val (digit_char d) = d"
  by (drule less_10_cases) (auto simp: digit_val_def digit_char_def)

lemma digit_char_not_minus: "d < 10 \<Longrightarrow> digit_char d \<noteq> CHR ''-''"
  by (drule less_10_cases) (auto simp: digit_char_def)

lemma undigits_snoc: "undigits (cs @ [c]) = 10 * undigits cs + digit_val c"
  by (simp add: undigits_def)

lemma undigits_digits: "undigits (digits n) = n"
proof (induction n rule: digits.induct)
  case (1 n)
  show ?case
  proof (cases "n < 10")
    case True
    then show ?thesis
      by (subst digits.simps) (simp add: undigits_def digit_val_digit_char)
  next
    case False
    with 1 have "undigits (digits (n div 10)) = n div 10" by simp
    with False show ?thesis
      by (subst digits.simps) (simp add: undigits_snoc digit_val_digit_char)
  qed
qed

lemma digits_inj: "digits a = digits b \<Longrightarrow> a = b"
  by (metis undigits_digits)

lemma hd_digits: "digits n \<noteq> [] \<and> hd (digits n) \<noteq> CHR ''-''"
proof (induction n rule: digits.induct)
  case (1 n)
  show ?case
  proof (cases "n < 10")
    case True
    then show ?thesis
      by (subst (1 2) digits.simps) (simp add: digit_char_not_minus)
  next
    case False
    with 1 have "digits (n div 10) \<noteq> [] \<and> hd (digits (n div 10)) \<noteq> CHR ''-''" by simp
    with False show ?thesis
      by (subst (1 2) digits.simps) simp
  qed
qed

lemma show_int_inj: "show_int a = show_int b \<Longrightarrow> a = b"
proof -
  assume eq: "show_int a = show_int b"
  have neq: "CHR ''-'' # digits x \<noteq> digits y" for x y
    using hd_digits[of y] by (cases "digits y") auto
  show ?thesis
  proof (cases "a < 0")
    case a: True
    show ?thesis
    proof (cases "b < 0")
      case True
      with a eq have "digits (nat (- a)) = digits (nat (- b))" by (simp add: show_int_def)
      then have "nat (- a) = nat (- b)" by (rule digits_inj)
      with a True show ?thesis by simp
    next
      case False
      with a eq neq show ?thesis by (simp add: show_int_def)
    qed
  next
    case a: False
    show ?thesis
    proof (cases "b < 0")
      case True
      with a eq neq[of "nat (- b)" "nat a"] show ?thesis by (simp add: show_int_def)
    next
      case False
      with a eq have "digits (nat a) = digits (nat b)" by (simp add: show_int_def)
      then have "nat a = nat b" by (rule digits_inj)
      with a False show ?thesis by simp
    qed
  qed
qed

section \<open>Properties of the blob store\<close>

subsection \<open>Counting and summing\<close>

lemma foldl_size_acc:
  "foldl (\<lambda>sum m. sum + meta_size m) a ms = a + sum_list (map meta_size ms)"
  by (induction ms arbitrary: a) auto

lemma getTotalStorageSize_sum: "getTotalStorageSize db = sum_list (map meta_size (meta db))"
  by (simp add: getTotalStorageSize_def foldl_size_acc)

lemma full_db_count: "length (meta full_db) = 500"
  by (simp add: full_db_def)

lemma full_db_size: "sum_list (map meta_size (meta full_db)) = 500"
  by (simp add: full_db_def comp_def sum_list_triv)

lemma three_blobs_meta: "meta three_blobs = [meta_a, meta_b, meta_c]"
  by (simp add: three_blobs_def storeBlob_def empty_db_def meta_put_def GiB2_def
      meta_a_def meta_b_def meta_c_def)

text \<open>
  C3. For every cache state and candidate size \<open>k\<close>, \<open>checkStorageLimit\<close> answers with
  reason \<open>count\<close> exactly when the entry count is at least 500; otherwise with reason
  \<open>size\<close> exactly when the stored bytes plus \<open>k\<close> exceed 4096 MiB; otherwise it answers
  that no cleanup is needed. The count is tested first, and the function only reads the
  database (it takes the database and returns no new one).
\<close>

theorem checkStorageLimit_verdict:
  "checkStorageLimit k db =
     (if length (meta db) \<ge> 500 then
        Some \<lparr>needsCleanup = True, reason = Some Count,
              currentCount = length (meta db),
              currentSizeMB = sizeMB (sum_list (map meta_size (meta db)))\<rparr>
      else if sum_list (map meta_size (meta db)) + k > 4096 * 1024 * 1024 then
        Some \<lparr>needsCleanup = True, reason = Some Size,
              currentCount = length (meta db),
              currentSizeMB = sizeMB (sum_list (map meta_size (meta db)))\<rparr>
      else None)"
  by (simp add: checkStorageLimit_def Let_def MAX_IMAGES_def maxStorageBytes_def
      MAX_STORAGE_MB_def getBlobCount_def getTotalStorageSize_sum)

theorem checkStorageLimit_verdict_witness:
  "getBlobCount full_db = 500 \<and> getTotalStorageSize full_db = 500 \<and>
   map_option reason (checkStorageLimit 1 full_db) = Some (Some Count) \<and>
   map_option reason (checkStorageLimit too_big full_db) = Some (Some Count) \<and>
   map_option reason (checkStorageLimit 1 three_blobs) = Some (Some Size) \<and>
   map_option currentCount (checkStorageLimit 1 three_blobs) = Some 3 \<and>
   checkStorageLimit 1 one_blob = None"
proof -
  have 1: "map_option reason (checkStorageLimit k full_db) = Some (Some Count)" for k
    using checkStorageLimit_verdict[of k full_db] by (simp add: full_db_count)
  have 2: "map_option reason (checkStorageLimit 1 three_blobs) = Some (Some Size) \<and>
      map_option currentCount (checkStorageLimit 1 three_blobs) = Some 3 \<and>
      checkStorageLimit 1 one_blob = None"
    using checkStorageLimit_verdict[of 1 three_blobs] checkStorageLimit_verdict[of 1 one_blob]
    by (simp add: three_blobs_meta meta_a_def meta_b_def meta_c_def one_blob_def storeBlob_def
      empty_db_def meta_put_def)
  from 1 2 show ?thesis
    by (simp add: getBlobCount_def getTotalStorageSize_sum full_db_count full_db_size)
qed

subsection \<open>The near-limit flag\<close>

lemma sizePercent_iff:
  "(sizeMB t / real_of_int MAX_STORAGE_MB) * 100 \<ge> WARNING_THRESHOLD_PERCENT \<longleftrightarrow>
   t \<ge> 3435921408"
proof -
  have "(sizeMB t / real_of_int MAX_STORAGE_MB) * 100 \<ge> WARNING_THRESHOLD_PERCENT
        \<longleftrightarrow> real_of_int (round ((real_of_int t / 1024 / 1024) * 10)) \<ge> 32768"
    by (simp add: sizeMB_def MAX_STORAGE_MB_def WARNING_THRESHOLD_PERCENT_def field_simps)
  also have "\<dots> \<longleftrightarrow> round ((real_of_int t / 1024 / 1024) * 10) \<ge> 32768"
    by linarith
  also have "\<dots> \<longleftrightarrow> (32768::real) \<le> (real_of_int t / 1024 / 1024) * 10 + 1/2"
    unfolding round_def by (subst le_floor_iff) simp
  also have "\<dots> \<longleftrightarrow> real_of_int t \<ge> 3435921408"
    by (simp add: field_simps)
  also have "\<dots> \<longleftrightarrow> t \<ge> 3435921408"
    by linarith
  finally show ?thesis .
qed

lemma countPercent_iff:
  "(real c / real MAX_IMAGES) * 100 \<ge> WARNING_THRESHOLD_PERCENT \<longleftrightarrow> c \<ge> 400"
  by (simp add: MAX_IMAGES_def WARNING_THRESHOLD_PERCENT_def field_simps)

text \<open>
  C9, as the code has it. \<open>getStorageInfo\<close> returns the entry count, the stored size (in
  MiB, rounded to one decimal) and a near-limit flag. The flag is computed from the
  rounded size: it is true exactly when the count is at least 400 (80% of 500) or the
  size rounded to a tenth of a MiB is at least 3276.8 MiB (80% of 4096 MiB), which is
  the case exactly from 3435921408 bytes on.
\<close>

theorem getStorageInfo_near_limit:
  "info_count (getStorageInfo db) = length (meta db) \<and>
   totalSizeMB (getStorageInfo db) = sizeMB (sum_list (map meta_size (meta db))) \<and>
   isNearLimit (getStorageInfo db) =
     (real (length (meta db)) \<ge> 80 / 100 * 500 \<or>
      sizeMB (sum_list (map meta_size (meta db))) \<ge> 80 / 100 * 4096) \<and>
   isNearLimit (getStorageInfo db) =
     (length (meta db) \<ge> 400 \<or> sum_list (map meta_size (meta db)) \<ge> 3435921408)"
proof -
  let ?total = "sum_list (map meta_size (meta db))"
  have flag: "isNearLimit (getStorageInfo db) =
      ((real (length (meta db)) / real MAX_IMAGES) * 100 \<ge> WARNING_THRESHOLD_PERCENT \<or>
       (sizeMB ?total / real_of_int MAX_STORAGE_MB) * 100 \<ge> WARNING_THRESHOLD_PERCENT)"
    by (simp add: getStorageInfo_def Let_def getTotalStorageSize_sum getBlobCount_def)
  have 1: "info_count (getStorageInfo db) = length (meta db)"
    by (simp add: getStorageInfo_def Let_def getBlobCount_def)
  have 2: "totalSizeMB (getStorageInfo db) = sizeMB ?total"
    by (simp add: getStorageInfo_def Let_def getTotalStorageSize_sum)
  have 3: "isNearLimit (getStorageInfo db) =
      (real (length (meta db)) \<ge> 80 / 100 * 500 \<or> sizeMB ?total \<ge> 80 / 100 * 4096)"
    unfolding flag
    by (simp add: MAX_IMAGES_def MAX_STORAGE_MB_def WARNING_THRESHOLD_PERCENT_def field_simps)
  have 4: "isNearLimit (getStorageInfo db) =
      (length (meta db) \<ge> 400 \<or> ?total \<ge> 3435921408)"
    unfolding flag sizePercent_iff countPercent_iff ..
  from 1 2 3 4 show ?thesis by blast
qed

theorem getStorageInfo_near_limit_witness:
  "isNearLimit (getStorageInfo three_blobs) \<and> \<not> isNearLimit (getStorageInfo one_blob)"
proof -
  have "isNearLimit (getStorageInfo three_blobs) =
      (length (meta three_blobs) \<ge> 400 \<or>
       sum_list (map meta_size (meta three_blobs)) \<ge> 3435921408)"
    using getStorageInfo_near_limit[of three_blobs] by blast
  moreover have "isNearLimit (getStorageInfo one_blob) =
      (length (meta one_blob) \<ge> 400 \<or> sum_list (map meta_size (meta one_blob)) \<ge> 3435921408)"
    using getStorageInfo_near_limit[of one_blob] by blast
  ultimately show ?thesis
    by (simp add: three_blobs_meta meta_a_def meta_b_def meta_c_def one_blob_def storeBlob_def
        empty_db_def meta_put_def)
qed

text \<open>
  The claim as the specification states it compares the stored bytes themselves with
  80% of the byte ceiling. With one entry of 3435921408 bytes the flag is set, although
  the count (1) is below 80% of 500 and the bytes are below 80% of 4096 MiB
  (3435973836.8 bytes).
\<close>

theorem getStorageInfo_rounding_counterexample:
  "\<not> (isNearLimit (getStorageInfo big_db) \<longleftrightarrow>
        real (getBlobCount big_db) \<ge> 80 / 100 * 500 \<or>
        real_of_int (getTotalStorageSize big_db) \<ge> 80 / 100 * (4096 * 1024 * 1024))"
proof -
  have "isNearLimit (getStorageInfo big_db)"
    using sizePercent_iff[of 3435921408]
    by (simp add: getStorageInfo_def Let_def big_db_def getTotalStorageSize_def)
  moreover have "\<not> real (getBlobCount big_db) \<ge> 80 / 100 * 500"
    by (simp add: getBlobCount_def big_db_def)
  moreover have "\<not> real_of_int (getTotalStorageSize big_db) \<ge> 80 / 100 * (4096 * 1024 * 1024)"
    by (simp add: getTotalStorageSize_def big_db_def)
  ultimately show ?thesis by blast
qed

subsection \<open>Eviction\<close>

lemma openCursor_None: "openCursor ms = None \<longleftrightarrow> ms = []"
  by (cases ms) (auto split: option.splits)

lemma openCursor_min:
  "openCursor ms = Some m \<Longrightarrow> m' \<in> set ms \<Longrightarrow> lastAccessedAt m \<le> lastAccessedAt m'"
proof (induction ms arbitrary: m m')
  case Nil
  then show ?case by simp
next
  case (Cons a ms)
  show ?case
  proof (cases "openCursor ms")
    case None
    then have "ms = []" by (simp add: openCursor_None)
    with Cons.prems show ?thesis by simp
  next
    case (Some b)
    have b_min: "\<And>x. x \<in> set ms \<Longrightarrow> lastAccessedAt b \<le> lastAccessedAt x"
      using Cons.IH[OF Some] by simp
    show ?thesis
    proof (cases "index_le a b")
      case True
      then have "m = a" and "lastAccessedAt a \<le> lastAccessedAt b"
        using Cons.prems(1) Some by (auto simp: index_le_def)
      with b_min Cons.prems(2) show ?thesis by fastforce
    next
      case False
      then have "m = b" and "lastAccessedAt b \<le> lastAccessedAt a"
        using Cons.prems(1) Some by (auto simp: index_le_def)
      with b_min Cons.prems(2) show ?thesis by fastforce
    qed
  qed
qed

lemma meta_deleteBlob: "meta (deleteBlob i db) = filter (\<lambda>m. meta_id m \<noteq> i) (meta db)"
  by (simp add: deleteBlob_def meta_delete_def)

lemma removeOldestBlob_Some:
  "removeOldestBlob db = (Some m, db') \<longleftrightarrow>
     openCursor (meta db) = Some m \<and> db' = deleteBlob (meta_id m) db"
  by (auto simp: removeOldestBlob_def split: option.splits)

lemma removeOldestBlob_None:
  "fst (removeOldestBlob db) = None \<longleftrightarrow> meta db = []"
  by (auto simp: removeOldestBlob_def openCursor_None split: option.splits)

lemma cleanup_loop_stop:
  "\<not> over_limit k db \<Longrightarrow> cleanup_loop k db = ([], db)"
  by (simp add: cleanup_loop.simps)

lemma cleanup_loop_empty:
  "meta db = [] \<Longrightarrow> cleanup_loop k db = ([], db)"
  by (simp add: cleanup_loop.simps removeOldestBlob_def)

lemma cleanup_loop_step:
  assumes "over_limit k db" and "openCursor (meta db) = Some m"
  shows "cleanup_loop k db =
           (m # fst (cleanup_loop k (deleteBlob (meta_id m) db)),
            snd (cleanup_loop k (deleteBlob (meta_id m) db)))"
  using assms
  by (subst cleanup_loop.simps) (simp add: removeOldestBlob_def split: prod.splits)

text \<open>An induction rule that follows the three ways an iteration can go.\<close>

lemma cleanup_loop_cases [case_names stop empty step]:
  assumes "\<And>db. \<not> over_limit k db \<Longrightarrow> P db"
    and "\<And>db. over_limit k db \<Longrightarrow> meta db = [] \<Longrightarrow> P db"
    and "\<And>db m. over_limit k db \<Longrightarrow> openCursor (meta db) = Some m \<Longrightarrow>
           P (deleteBlob (meta_id m) db) \<Longrightarrow> P db"
  shows "P db"
proof (induction "length (meta db)" arbitrary: db rule: less_induct)
  case less
  show ?case
  proof (cases "over_limit k db")
    case False
    then show ?thesis by (rule assms(1))
  next
    case True
    show ?thesis
    proof (cases "openCursor (meta db)")
      case None
      then show ?thesis using True assms(2) by (simp add: openCursor_None)
    next
      case (Some m)
      then have "removeOldestBlob db = (Some m, deleteBlob (meta_id m) db)"
        by (simp add: removeOldestBlob_Some)
      then have "length (meta (deleteBlob (meta_id m) db)) < length (meta db)"
        by (rule removeOldestBlob_shrinks)
      then have "P (deleteBlob (meta_id m) db)" by (rule less)
      with True Some show ?thesis by (rule assms(3))
    qed
  qed
qed




lemma cleanup_loop_db:
  "snd (cleanup_loop k db) = deleteBlobs (map meta_id (fst (cleanup_loop k db))) db"
  by (induction db rule: cleanup_loop_cases[of k])
     (simp_all add: cleanup_loop_stop cleanup_loop_empty cleanup_loop_step)



lemma meta_deleteBlobs:
  "meta (deleteBlobs ids db) = filter (\<lambda>m. meta_id m \<notin> set ids) (meta db)"
  by (induction ids arbitrary: db) (auto simp: meta_deleteBlob intro: filter_cong)

lemma blobs_deleteBlobs:
  "blobs (deleteBlobs ids db) = (\<lambda>i. if i \<in> set ids then None else blobs db i)"
  by (induction ids arbitrary: db) (auto simp: deleteBlob_def)

lemma cleanup_loop_oldest:
  "r \<in> set (fst (cleanup_loop k db)) \<Longrightarrow> m' \<in> set (meta (snd (cleanup_loop k db))) \<Longrightarrow>
   lastAccessedAt r \<le> lastAccessedAt m'"
proof (induction db rule: cleanup_loop_cases[of k])
  case (step db m)
  let ?db' = "deleteBlob (meta_id m) db"
  from step(5) have m': "m' \<in> set (meta (snd (cleanup_loop k ?db')))"
    by (simp add: cleanup_loop_step[OF step(1,2)])
  show ?case
  proof (cases "r = m")
    case True
    from m' have "m' \<in> set (meta ?db')"
      by (subst (asm) cleanup_loop_db) (simp add: meta_deleteBlobs)
    then have "m' \<in> set (meta db)" by (simp add: meta_deleteBlob)
    with step(2) True show ?thesis by (simp add: openCursor_min)
  next
    case False
    with step(4) have "r \<in> set (fst (cleanup_loop k ?db'))"
      by (simp add: cleanup_loop_step[OF step(1,2)])
    then show ?thesis using m' by (rule step(3))
  qed
qed (simp_all add: cleanup_loop_stop cleanup_loop_empty)



















lemma one_blob_meta:
  "meta one_blob = [\<lparr>meta_id = ''a'', meta_size = 3, createdAt = 10, lastAccessedAt = 10\<rparr>]"
  by (simp add: one_blob_def storeBlob_def empty_db_def meta_put_def)





subsection \<open>Reading a blob\<close>

lemma meta_get_Some: "meta_get ms i = Some m \<Longrightarrow> m \<in> set ms \<and> meta_id m = i"
  by (auto simp: meta_get_def find_Some_iff)

lemma meta_get_None: "meta_get ms i = None \<longleftrightarrow> i \<notin> meta_id ` set ms"
  by (auto simp: meta_get_def find_None_iff)

lemma getBlob_absent: "blobs db i = None \<Longrightarrow> getBlob now i db = (None, db)"
  by (simp add: getBlob_def)

lemma getBlob_no_meta:
  "blobs db i = Some b \<Longrightarrow> meta_get (meta db) i = None \<Longrightarrow> getBlob now i db = (Some b, db)"
  by (simp add: getBlob_def)

lemma getBlob_present:
  assumes "blobs db i = Some b" and "meta_get (meta db) i = Some m"
  shows "getBlob now i db =
    (Some b, db\<lparr>meta := map (\<lambda>m'. if meta_id m' = i then m\<lparr>lastAccessedAt := now\<rparr> else m') (meta db)\<rparr>)"
proof -
  from assms(2) have "m \<in> set (meta db)" "meta_id m = i" by (auto dest: meta_get_Some)
  then have "meta_id (m\<lparr>lastAccessedAt := now\<rparr>) \<in> meta_id ` set (meta db)" by force
  with assms \<open>meta_id m = i\<close> show ?thesis by (simp add: getBlob_def meta_put_def)
qed

lemma find_replace_other:
  "meta_id u = i \<Longrightarrow> j \<noteq> i \<Longrightarrow>
   find (\<lambda>m. meta_id m = j) (map (\<lambda>m'. if meta_id m' = i then u else m') ms) =
   find (\<lambda>m. meta_id m = j) ms"
  by (induction ms) auto

lemma find_replace_same:
  "meta_id u = i \<Longrightarrow> find (\<lambda>m. meta_id m = i) ms = Some m0 \<Longrightarrow>
   find (\<lambda>m. meta_id m = i) (map (\<lambda>m'. if meta_id m' = i then u else m') ms) = Some u"
  by (induction ms) (auto split: if_splits)

lemma meta_get_touch:
  assumes "meta_get ms i = Some m"
  shows "meta_get (map (\<lambda>m'. if meta_id m' = i then m\<lparr>lastAccessedAt := now\<rparr> else m') ms) j =
     (if j = i then Some (m\<lparr>lastAccessedAt := now\<rparr>) else meta_get ms j)"
proof -
  from assms have mi: "meta_id (m\<lparr>lastAccessedAt := now\<rparr>) = i" by (auto dest: meta_get_Some)
  show ?thesis
    using assms find_replace_other[OF mi, of j ms] find_replace_same[OF mi, of ms m]
    by (simp add: meta_get_def)
qed

text \<open>What one call does to the record of any id j.\<close>

lemma getBlob_meta_get:
  "meta_get (meta (snd (getBlob now i db))) j =
     (if j = i \<and> blobs db i \<noteq> None
      then map_option (\<lambda>m. m\<lparr>lastAccessedAt := now\<rparr>) (meta_get (meta db) i)
      else meta_get (meta db) j)"
proof (cases "blobs db i")
  case None
  then show ?thesis by (simp add: getBlob_absent)
next
  case (Some b)
  show ?thesis
  proof (cases "meta_get (meta db) i")
    case None
    with Some show ?thesis by (auto simp: getBlob_no_meta)
  next
    case m: (Some m)
    with Some show ?thesis by (simp add: getBlob_present meta_get_touch)
  qed
qed

lemma getBlob_stamps:
  "m' \<in> set (meta (snd (getBlob now i db))) \<Longrightarrow>
   m' \<in> set (meta db) \<or> lastAccessedAt m' = now"
proof (cases "blobs db i")
  case None
  assume "m' \<in> set (meta (snd (getBlob now i db)))"
  with None show ?thesis by (simp add: getBlob_absent)
next
  case (Some b)
  assume a: "m' \<in> set (meta (snd (getBlob now i db)))"
  show ?thesis
  proof (cases "meta_get (meta db) i")
    case None
    with Some a show ?thesis by (simp add: getBlob_no_meta)
  next
    case m: (Some m)
    with Some a show ?thesis by (auto simp: getBlob_present split: if_splits)
  qed
qed

lemma clock_ok_step:
  assumes "clock_ok (t # ts) db"
  shows "clock_ok ts (snd (getBlob t i db))"
proof -
  from assms have s: "sorted ts" and le: "\<forall>u\<in>set ts. t \<le> u"
    and old: "\<forall>m\<in>set (meta db). \<forall>u\<in>set ts. lastAccessedAt m \<le> u"
    by (auto simp: clock_ok_def list_all_iff)
  have "lastAccessedAt m' \<le> u" if "m' \<in> set (meta (snd (getBlob t i db)))" "u \<in> set ts" for m' u
    using getBlob_stamps[OF that(1)] that(2) le old by auto
  with s show ?thesis by (auto simp: clock_ok_def list_all_iff)
qed

lemma getBlobs_append: "getBlobs (cs @ ds) db = getBlobs ds (getBlobs cs db)"
  by (induction cs arbitrary: db) auto

lemma getBlobs_monotone:
  "clock_ok (map fst calls) db \<Longrightarrow> meta_get (meta db) j = Some m \<Longrightarrow>
   \<exists>m'. meta_get (meta (getBlobs calls db)) j = Some m' \<and> lastAccessedAt m \<le> lastAccessedAt m'"
proof (induction calls arbitrary: db m)
  case Nil
  then show ?case by simp
next
  case (Cons c calls)
  obtain t i where c: "c = (t, i)" by (cases c)
  let ?db = "snd (getBlob t i db)"
  from Cons.prems(1) c have ok: "clock_ok (t # map fst calls) db" by simp
  then have ok': "clock_ok (map fst calls) ?db" by (rule clock_ok_step)
  from Cons.prems(2) have "m \<in> set (meta db)" by (auto dest: meta_get_Some)
  with ok have mt: "lastAccessedAt m \<le> t" by (auto simp: clock_ok_def list_all_iff)
  have "\<exists>m1. meta_get (meta ?db) j = Some m1 \<and> lastAccessedAt m \<le> lastAccessedAt m1"
  proof (cases "j = i \<and> blobs db i \<noteq> None")
    case True
    with Cons.prems(2) mt show ?thesis by (simp add: getBlob_meta_get)
  next
    case False
    with Cons.prems(2) show ?thesis by (auto simp: getBlob_meta_get)
  qed
  then obtain m1 where m1: "meta_get (meta ?db) j = Some m1" "lastAccessedAt m \<le> lastAccessedAt m1"
    by blast
  from Cons.IH[OF ok' m1(1)] obtain m' where
    "meta_get (meta (getBlobs calls ?db)) j = Some m'" "lastAccessedAt m1 \<le> lastAccessedAt m'"
    by blast
  with m1(2) c show ?case by auto
qed

lemma clock_ok_run:
  "clock_ok (map fst cs @ ts) db \<Longrightarrow> clock_ok ts (getBlobs cs db)"
proof (induction cs arbitrary: db)
  case Nil
  then show ?case by simp
next
  case (Cons c cs)
  obtain t i where c: "c = (t, i)" by (cases c)
  from Cons.prems c have "clock_ok (t # map fst cs @ ts) db" by simp
  then have "clock_ok (map fst cs @ ts) (snd (getBlob t i db))" by (rule clock_ok_step)
  from Cons.IH[OF this] c show ?case by simp
qed

text \<open>
  C8, as the code has it. For a stored id \<open>getBlob\<close> returns the binary and sets
  \<open>lastAccessedAt\<close> of the record of that id to the clock reading \<open>now\<close>, whatever the
  stamp was before, leaving the binaries, the set of records and the records of all
  other ids as they are; for an absent id it returns \<open>null\<close> and changes nothing. When
  the clock readings of successive calls do not decrease and none lies before a stamp
  already stored, the \<open>lastAccessedAt\<close> of a record after any further calls is never
  below its value before them.
\<close>

theorem getBlob_touches:
  "(blobs db i = None \<longrightarrow> getBlob now i db = (None, db)) \<and>
   (\<forall>b. blobs db i = Some b \<longrightarrow>
      fst (getBlob now i db) = Some b \<and>
      blobs (snd (getBlob now i db)) = blobs db \<and>
      map meta_id (meta (snd (getBlob now i db))) = map meta_id (meta db) \<and>
      meta_get (meta (snd (getBlob now i db))) i =
        map_option (\<lambda>m. m\<lparr>lastAccessedAt := now\<rparr>) (meta_get (meta db) i) \<and>
      (\<forall>j. j \<noteq> i \<longrightarrow> meta_get (meta (snd (getBlob now i db))) j = meta_get (meta db) j)) \<and>
   (\<forall>calls later j m.
      clock_ok (map fst (calls @ later)) db \<and> meta_get (meta (getBlobs calls db)) j = Some m \<longrightarrow>
      (\<exists>m'. meta_get (meta (getBlobs (calls @ later) db)) j = Some m' \<and>
            lastAccessedAt m \<le> lastAccessedAt m'))"
proof (intro conjI allI impI)
  assume "blobs db i = None"
  then show "getBlob now i db = (None, db)" by (rule getBlob_absent)
next
  fix b assume b: "blobs db i = Some b"
  show "fst (getBlob now i db) = Some b" using b by (simp add: getBlob_def)
  show "blobs (snd (getBlob now i db)) = blobs db"
    using b by (simp add: getBlob_def split: option.splits)
  show "map meta_id (meta (snd (getBlob now i db))) = map meta_id (meta db)"
  proof (cases "meta_get (meta db) i")
    case None
    with b show ?thesis by (simp add: getBlob_no_meta)
  next
    case (Some m)
    then have "meta_id m = i" by (auto dest: meta_get_Some)
    with b Some show ?thesis by (simp add: getBlob_present)
  qed
  show "meta_get (meta (snd (getBlob now i db))) i =
        map_option (\<lambda>m. m\<lparr>lastAccessedAt := now\<rparr>) (meta_get (meta db) i)"
    using b by (simp add: getBlob_meta_get)
next
  fix b j assume "blobs db i = Some b" "j \<noteq> i"
  then show "meta_get (meta (snd (getBlob now i db))) j = meta_get (meta db) j"
    by (simp add: getBlob_meta_get)
next
  fix calls later j m
  assume a: "clock_ok (map fst (calls @ later)) db \<and> meta_get (meta (getBlobs calls db)) j = Some m"
  then have "clock_ok (map fst later) (getBlobs calls db)" by (simp add: clock_ok_run)
  from getBlobs_monotone[OF this] a
  show "\<exists>m'. meta_get (meta (getBlobs (calls @ later) db)) j = Some m' \<and>
            lastAccessedAt m \<le> lastAccessedAt m'"
    by (simp add: getBlobs_append)
qed

theorem getBlob_touches_witness:
  "blobs one_blob ''a'' = Some [1, 2, 3] \<and>
   getBlob 20 ''b'' one_blob = (None, one_blob) \<and>
   fst (getBlob 20 ''a'' one_blob) = Some [1, 2, 3] \<and>
   map_option lastAccessedAt (meta_get (meta one_blob) ''a'') = Some 10 \<and>
   map_option lastAccessedAt (meta_get (meta (snd (getBlob 20 ''a'' one_blob))) ''a'') = Some 20 \<and>
   clock_ok [20, 30] one_blob \<and>
   (\<exists>m'. meta_get (meta (getBlobs [(20, ''a''), (30, ''a'')] one_blob)) ''a'' = Some m' \<and>
         20 \<le> lastAccessedAt m')"
proof -
  note t = getBlob_touches[of one_blob "''a''" 20]
  note u = getBlob_touches[of one_blob "''b''" 20]
  have b: "blobs one_blob ''a'' = Some [1, 2, 3]"
    by (simp add: one_blob_def storeBlob_def empty_db_def)
  have nb: "blobs one_blob ''b'' = None"
    by (simp add: one_blob_def storeBlob_def empty_db_def)
  have g: "meta_get (meta one_blob) ''a'' =
      Some \<lparr>meta_id = ''a'', meta_size = 3, createdAt = 10, lastAccessedAt = 10\<rparr>"
    by (simp add: one_blob_meta meta_get_def)
  have c: "clock_ok [20, 30] one_blob"
    by (simp add: clock_ok_def one_blob_meta)
  from u nb have 1: "getBlob 20 ''b'' one_blob = (None, one_blob)" by blast
  from t b have 2: "fst (getBlob 20 ''a'' one_blob) = Some [1, 2, 3]" by blast
  from t b have 3: "meta_get (meta (snd (getBlob 20 ''a'' one_blob))) ''a'' =
      map_option (\<lambda>m. m\<lparr>lastAccessedAt := 20\<rparr>) (meta_get (meta one_blob) ''a'')" by blast
  have 4: "getBlobs [(20, ''a'')] one_blob = snd (getBlob 20 ''a'' one_blob)" by simp
  from t have "\<forall>calls later j m.
      clock_ok (map fst (calls @ later)) one_blob \<and>
      meta_get (meta (getBlobs calls one_blob)) j = Some m \<longrightarrow>
      (\<exists>m'. meta_get (meta (getBlobs (calls @ later) one_blob)) j = Some m' \<and>
            lastAccessedAt m \<le> lastAccessedAt m')" by blast
  from this[rule_format, of "[(20, ''a'')]" "[(30, ''a'')]" "''a''"
      "\<lparr>meta_id = ''a'', meta_size = 3, createdAt = 10, lastAccessedAt = 20\<rparr>"]
  have 5: "\<exists>m'. meta_get (meta (getBlobs [(20, ''a''), (30, ''a'')] one_blob)) ''a'' = Some m' \<and>
      20 \<le> lastAccessedAt m'"
    using c 3 g by simp
  from b 1 2 3 g c 5 show ?thesis by simp
qed

text \<open>
  The claim as the specification states it lets \<open>lastAccessedAt\<close> never decrease across
  successive calls. \<open>getBlob\<close> writes the clock reading without comparing it with the
  stored stamp: a call that reads the clock at 5, after the stamp was set to 10 or by
  an earlier call to 20, brings the stamp down to 5.
\<close>

theorem getBlob_clock_back_counterexample:
  "map_option lastAccessedAt (meta_get (meta one_blob) ''a'') = Some 10 \<and>
   fst (getBlob 5 ''a'' one_blob) = Some [1, 2, 3] \<and>
   map_option lastAccessedAt (meta_get (meta (snd (getBlob 5 ''a'' one_blob))) ''a'') = Some 5 \<and>
   map_option lastAccessedAt (meta_get (meta (getBlobs [(20, ''a'')] one_blob)) ''a'') = Some 20 \<and>
   map_option lastAccessedAt
     (meta_get (meta (getBlobs [(20, ''a''), (5, ''a'')] one_blob)) ''a'') = Some 5"
  by (simp add: one_blob_def storeBlob_def empty_db_def meta_put_def getBlob_def meta_get_def)

section \<open>Properties of the flow store\<close>

subsection \<open>The loop of \<open>confirmConfig\<close>\<close>

lemma newImageNodes_loop_map:
  "newImageNodes_loop s c nid pos i acc = acc @ map (newImageNode s c nid pos) [i..batchCount c - 1]"
proof (induction s c nid pos i acc rule: newImageNodes_loop.induct)
  case (1 s c nid pos i acc)
  show ?case
  proof (cases "i < batchCount c")
    case True
    then have "[i..batchCount c - 1] = i # [i + 1..batchCount c - 1]"
      by (simp add: upto_rec1)
    with True 1 show ?thesis
      by (subst newImageNodes_loop.simps) simp
  next
    case False
    then show ?thesis
      by (subst newImageNodes_loop.simps) simp
  qed
qed

lemma confirmConfig_None: "previewConfig s = None \<Longrightarrow> confirmConfig s = (None, s)"
  by (simp add: confirmConfig_def)

lemma confirmConfig_Some:
  assumes "previewConfig s = Some p"
  shows "confirmConfig s =
    (Some (''config-'' @ show_int (nodeIdCounter s + 1)),
     s\<lparr>configNodes := configNodes s @
          [\<lparr>node_id = ''config-'' @ show_int (nodeIdCounter s + 1), node_type = ''configNode'',
            position = getNextConfigPosition s,
            data = p\<lparr>config_id := ''config-'' @ show_int (nodeIdCounter s + 1), isPreview := False\<rparr>,
            draggable = True\<rparr>],
        imageNodes := imageNodes s @ created_by s p,
        previewConfig := None, editingConfigId := None, isEditingModified := False,
        nodeIdCounter := nodeIdCounter s + 1 + batchCount p\<rparr>)"
  using assms by (simp add: confirmConfig_def Let_def newImageNodes_loop_map created_by_def)

lemma length_created_by: "length (created_by s p) = nat (batchCount p)"
  by (simp add: created_by_def)

lemma nth_created_by:
  "i < length (created_by s p) \<Longrightarrow>
   created_by s p ! i =
     newImageNode s p (''config-'' @ show_int (nodeIdCounter s + 1)) (getNextConfigPosition s) (int i)"
  by (simp add: created_by_def)

lemma created_images_confirm:
  "previewConfig s = Some p \<Longrightarrow> created_images s (snd (confirmConfig s)) = created_by s p"
  by (simp add: confirmConfig_Some created_images_def)

lemma created_by_fields:
  "i < length (created_by s p) \<Longrightarrow>
   configId (data (created_by s p ! i)) = ''config-'' @ show_int (nodeIdCounter s + 1) \<and>
   image_seed (data (created_by s p ! i)) = js_add (seed p) (int i) \<and>
   image_prompt (data (created_by s p ! i)) = prompt p \<and>
   position (created_by s p ! i) =
     \<lparr>pos_x = pos_x (getNextConfigPosition s),
      pos_y = pos_y (getNextConfigPosition s) + IMAGE_OFFSET_Y + real i * IMAGE_SPACING_Y\<rparr>"
  by (simp add: nth_created_by newImageNode_def Let_def)

lemmas eval_flow =
  setPreviewConfig_def confirmConfig_def Let_def newImageNodes_loop_map upto.simps
  newImageNode_def getNextConfigPosition_def initial_state_def show_int_def digits.simps
  digit_char_def FIRST_CONFIG_X_def FIRST_CONFIG_Y_def CONFIG_SPACING_def IMAGE_OFFSET_Y_def
  IMAGE_SPACING_Y_def

subsection \<open>Invariants of the reachable states\<close>

lemma node_id_newImageNode:
  "node_id (newImageNode s p nid pos i) = ''image-'' @ show_int (nodeIdCounter s + 2 + i)"
  by (simp add: newImageNode_def Let_def)

lemma map_node_id_created_by:
  "map node_id (created_by s p) =
     map (\<lambda>i. ''image-'' @ show_int (nodeIdCounter s + 2 + i)) [0..batchCount p - 1]"
  by (simp add: created_by_def node_id_newImageNode)

lemma distinct_created_by: "distinct (map node_id (created_by s p))"
  unfolding map_node_id_created_by
  by (rule distinct_map[THEN iffD2]) (auto intro!: inj_onI dest: show_int_inj)

lemma ids_inv_initial: "ids_inv initial_state"
  by (simp add: ids_inv_def initial_state_def)

lemma ids_inv_confirm:
  assumes "ids_inv s"
  shows "ids_inv (snd (confirmConfig s))"
proof (cases "previewConfig s")
  case None
  with assms show ?thesis by (simp add: confirmConfig_None)
next
  case (Some p)
  let ?c = "nodeIdCounter s"
  from assms Some have b: "0 \<le> batchCount p" and c: "0 \<le> ?c"
    and cfg: "\<forall>n\<in>set (configNodes s). \<exists>k. k \<le> ?c \<and> node_id n = ''config-'' @ show_int k"
    and img: "\<forall>n\<in>set (imageNodes s). \<exists>k. k \<le> ?c \<and> node_id n = ''image-'' @ show_int k"
    and dc: "distinct (map node_id (configNodes s))"
    and di: "distinct (map node_id (imageNodes s))"
    by (auto simp: ids_inv_def)
  have new_cfg: "''config-'' @ show_int (?c + 1) \<notin> node_id ` set (configNodes s)"
  proof
    assume "''config-'' @ show_int (?c + 1) \<in> node_id ` set (configNodes s)"
    then obtain n where "n \<in> set (configNodes s)" "node_id n = ''config-'' @ show_int (?c + 1)"
      by auto
    with cfg obtain k where "k \<le> ?c" "show_int k = show_int (?c + 1)" by force
    then show False by (auto dest: show_int_inj)
  qed
  have new_img: "set (map node_id (imageNodes s)) \<inter> set (map node_id (created_by s p)) = {}"
  proof (rule ccontr)
    assume "set (map node_id (imageNodes s)) \<inter> set (map node_id (created_by s p)) \<noteq> {}"
    then obtain n i where n: "n \<in> set (imageNodes s)" and i: "0 \<le> i"
      and eq: "node_id n = ''image-'' @ show_int (?c + 2 + i)"
      by (auto simp: map_node_id_created_by)
    from img n obtain k where "k \<le> ?c" "node_id n = ''image-'' @ show_int k" by blast
    with eq have "show_int k = show_int (?c + 2 + i)" by simp
    then have "k = ?c + 2 + i" by (rule show_int_inj)
    with \<open>k \<le> ?c\<close> i show False by simp
  qed
  have img': "\<exists>k. k \<le> ?c + 1 + batchCount p \<and> node_id n = ''image-'' @ show_int k"
    if "n \<in> set (imageNodes s) \<union> set (created_by s p)" for n
  proof (cases "n \<in> set (imageNodes s)")
    case True
    with img obtain k where "k \<le> ?c" "node_id n = ''image-'' @ show_int k" by blast
    with b show ?thesis by (intro exI[of _ k]) simp
  next
    case False
    with that have "node_id n \<in> set (map node_id (created_by s p))" by auto
    then obtain i where "0 \<le> i" "i \<le> batchCount p - 1"
      "node_id n = ''image-'' @ show_int (?c + 2 + i)"
      by (auto simp: map_node_id_created_by)
    then show ?thesis by (intro exI[of _ "?c + 2 + i"]) simp
  qed
  have cfg': "\<exists>k. k \<le> ?c + 1 + batchCount p \<and> node_id n = ''config-'' @ show_int k"
    if "n \<in> set (configNodes s)" for n
  proof -
    from cfg that obtain k where "k \<le> ?c" "node_id n = ''config-'' @ show_int k" by blast
    with b show ?thesis by (intro exI[of _ k]) simp
  qed
  have cfg_new: "\<exists>k. k \<le> ?c + 1 + batchCount p \<and> ''config-'' @ show_int (?c + 1) = ''config-'' @ show_int k"
    using b by (intro exI[of _ "?c + 1"]) simp
  show ?thesis
    unfolding confirmConfig_Some[OF Some] ids_inv_def
    using b c dc di new_cfg new_img distinct_created_by[of s p] img' cfg' cfg_new
    by (simp add: ball_Un)
qed

lemma map_node_id_cong:
  "(\<And>n. node_id (f n) = node_id n) \<Longrightarrow> map node_id (map f ns) = map node_id ns"
  by (induction ns) auto

lemma ids_inv_nodes_cong:
  assumes "ids_inv s"
    and "nodeIdCounter s' = nodeIdCounter s"
    and "previewConfig s' = previewConfig s \<or> previewConfig s' = None"
    and "map node_id (configNodes s') = map node_id (configNodes s)"
    and "map node_id (imageNodes s') = map node_id (imageNodes s)"
  shows "ids_inv s'"
proof -
  have c: "node_id ` set (configNodes s') = node_id ` set (configNodes s)"
    using assms(4) by (metis set_map)
  have i: "node_id ` set (imageNodes s') = node_id ` set (imageNodes s)"
    using assms(5) by (metis set_map)
  from assms(1) have
    "\<forall>x\<in>node_id ` set (configNodes s). \<exists>k. k \<le> nodeIdCounter s \<and> x = ''config-'' @ show_int k"
    "\<forall>x\<in>node_id ` set (imageNodes s). \<exists>k. k \<le> nodeIdCounter s \<and> x = ''image-'' @ show_int k"
    by (auto simp: ids_inv_def)
  then have
    "\<forall>x\<in>node_id ` set (configNodes s'). \<exists>k. k \<le> nodeIdCounter s \<and> x = ''config-'' @ show_int k"
    "\<forall>x\<in>node_id ` set (imageNodes s'). \<exists>k. k \<le> nodeIdCounter s \<and> x = ''image-'' @ show_int k"
    unfolding c i by auto
  then have
    "\<forall>n\<in>set (configNodes s'). \<exists>k. k \<le> nodeIdCounter s \<and> node_id n = ''config-'' @ show_int k"
    "\<forall>n\<in>set (imageNodes s'). \<exists>k. k \<le> nodeIdCounter s \<and> node_id n = ''image-'' @ show_int k"
    by auto
  with assms show ?thesis by (auto simp: ids_inv_def)
qed

lemma ids_inv_setPreviewConfig:
  "ids_inv s \<Longrightarrow> (\<forall>c. config = Some c \<longrightarrow> 0 \<le> batchCount c) \<Longrightarrow>
   ids_inv (setPreviewConfig config now s)"
  by (cases config) (auto simp: ids_inv_def setPreviewConfig_def)

lemma ids_inv_loadConfigForEditing: "ids_inv s \<Longrightarrow> ids_inv (snd (loadConfigForEditing cid s))"
  by (rule ids_inv_nodes_cong[of s]) (auto simp: loadConfigForEditing_def split: option.splits)

lemma ids_inv_updateConfigPosition: "ids_inv s \<Longrightarrow> ids_inv (updateConfigPosition cid x y s)"
  by (rule ids_inv_nodes_cong[of s])
     (auto simp: updateConfigPosition_def Let_def split: option.splits intro!: map_node_id_cong)

lemma ids_inv_updateImageGenerated:
  "ids_inv s \<Longrightarrow> ids_inv (updateImageGenerated imageId url dur blobId s)"
  by (rule ids_inv_nodes_cong[of s])
     (auto simp: updateImageGenerated_def intro!: map_node_id_cong)

lemma ids_inv_updateImageError: "ids_inv s \<Longrightarrow> ids_inv (updateImageError imageId err s)"
  by (rule ids_inv_nodes_cong[of s])
     (auto simp: updateImageError_def intro!: map_node_id_cong)

lemma ids_inv_deleteConfig: "ids_inv s \<Longrightarrow> ids_inv (fst (deleteConfig cid (s, db)))"
  by (auto simp: ids_inv_def deleteConfig_def Let_def distinct_map_filter)

lemma ids_inv_clearAll: "ids_inv (fst (clearAll (s, db)))"
  by (simp add: ids_inv_def clearAll_def)

lemma ids_inv_step:
  assumes "ids_inv (fst st)" and "nonneg_batches [a]"
  shows "ids_inv (fst (step a st))"
proof -
  obtain s db where st: "st = (s, db)" by (cases st)
  with assms(1) have s: "ids_inv s" by simp
  show ?thesis
  proof (cases a)
    case (SetPreviewConfig config now)
    with assms(2) have "\<forall>c. config = Some c \<longrightarrow> 0 \<le> batchCount c"
      by (auto simp: nonneg_batches_def)
    with s SetPreviewConfig st show ?thesis by (simp add: ids_inv_setPreviewConfig)
  next
    case ConfirmConfig
    with s st show ?thesis by (simp add: ids_inv_confirm)
  next
    case (DeleteConfig cid)
    with s st show ?thesis by (simp add: ids_inv_deleteConfig)
  next
    case ClearAll
    with st show ?thesis by (simp add: ids_inv_clearAll)
  next
    case (LoadConfigForEditing cid)
    with s st show ?thesis by (simp add: ids_inv_loadConfigForEditing)
  next
    case (UpdateConfigPosition cid x y)
    with s st show ?thesis by (simp add: ids_inv_updateConfigPosition)
  next
    case (UpdateImageGenerated imageId url dur blobId)
    with s st show ?thesis by (simp add: ids_inv_updateImageGenerated)
  next
    case (UpdateImageError imageId err)
    with s st show ?thesis by (simp add: ids_inv_updateImageError)
  next
    case ClearEditing
    have "ids_inv (clearEditing s)"
      by (rule ids_inv_nodes_cong[OF s]) (simp_all add: clearEditing_def)
    with ClearEditing st show ?thesis by simp
  next
    case (SetEditingModified modified)
    have "ids_inv (setEditingModified modified s)"
      by (rule ids_inv_nodes_cong[OF s]) (simp_all add: setEditingModified_def)
    with SetEditingModified st show ?thesis by simp
  next
    case (SetLightboxImage imageId)
    have "ids_inv (setLightboxImage imageId s)"
      by (rule ids_inv_nodes_cong[OF s]) (simp_all add: setLightboxImage_def)
    with SetLightboxImage st show ?thesis by simp
  next
    case (SetStorageLimitState l)
    have "ids_inv (setStorageLimitState l s)"
      by (rule ids_inv_nodes_cong[OF s]) (simp_all add: setStorageLimitState_def)
    with SetStorageLimitState st show ?thesis by simp
  next
    case ClearStorageLimitState
    have "ids_inv (clearStorageLimitState s)"
      by (rule ids_inv_nodes_cong[OF s]) (simp_all add: clearStorageLimitState_def)
    with ClearStorageLimitState st show ?thesis by simp
  qed
qed

lemma ids_inv_run:
  "ids_inv (fst st) \<Longrightarrow> nonneg_batches acts \<Longrightarrow> ids_inv (fst (run acts st))"
proof (induction acts arbitrary: st)
  case Nil
  then show ?case by simp
next
  case (Cons a acts)
  from Cons.prems(2) have "nonneg_batches [a]" "nonneg_batches acts"
    by (simp_all add: nonneg_batches_def)
  with Cons.prems(1) Cons.IH[of "step a st"] show ?case
    by (simp add: ids_inv_step)
qed

lemma ids_inv_all_distinct:
  assumes "ids_inv s"
  shows "distinct (map node_id (configNodes s) @ map node_id (imageNodes s))"
proof -
  have "x \<noteq> y" if "x \<in> node_id ` set (configNodes s)" "y \<in> node_id ` set (imageNodes s)" for x y
  proof -
    from assms have
      c: "\<forall>n\<in>set (configNodes s). \<exists>k. node_id n = ''config-'' @ show_int k" and
      i: "\<forall>n\<in>set (imageNodes s). \<exists>k. node_id n = ''image-'' @ show_int k"
      unfolding ids_inv_def by blast+
    from that(1) c obtain k where "x = ''config-'' @ show_int k" by blast
    moreover from that(2) i obtain l where "y = ''image-'' @ show_int l" by blast
    ultimately have "hd x = CHR ''c''" "hd y = CHR ''i''" by simp_all
    then show ?thesis by auto
  qed
  with assms show ?thesis by (auto simp: ids_inv_def)
qed

lemma owners_present_step: "owners_present (fst st) \<Longrightarrow> owners_present (fst (step a st))"
proof -
  assume o: "owners_present (fst st)"
  obtain s db where st: "st = (s, db)" by (cases st)
  with o have s: "\<forall>n\<in>set (imageNodes s). configId (data n) \<in> node_id ` set (configNodes s)"
    by (simp add: owners_present_def list_all_iff)
  show ?thesis
  proof (cases a)
    case ConfirmConfig
    show ?thesis
    proof (cases "previewConfig s")
      case None
      with ConfirmConfig st o show ?thesis by (simp add: confirmConfig_None)
    next
      case (Some p)
      have "configId (data n) = ''config-'' @ show_int (nodeIdCounter s + 1)"
        if "n \<in> set (created_by s p)" for n
        using that by (auto simp: created_by_def newImageNode_def Let_def)
      with s ConfirmConfig st show ?thesis
        by (auto simp: owners_present_def list_all_iff confirmConfig_Some[OF Some])
    qed
  next
    case (SetPreviewConfig config now)
    with st o show ?thesis
      by (cases config) (simp_all add: setPreviewConfig_def owners_present_def)
  next
    case (LoadConfigForEditing cid)
    with st o show ?thesis
      by (simp add: loadConfigForEditing_def owners_present_def split: option.splits)
  next
    case (UpdateConfigPosition cid x y)
    have "node_id ` (\<lambda>n. if node_id n = cid then n\<lparr>position := q\<rparr> else n) ` set (configNodes s)
        = node_id ` set (configNodes s)" for q
    proof -
      have "(\<lambda>n. node_id (if node_id n = cid then n\<lparr>position := q\<rparr> else n)) = node_id"
        by auto
      then show ?thesis unfolding image_image by (rule arg_cong)
    qed
    with s UpdateConfigPosition st show ?thesis
      by (auto simp: updateConfigPosition_def Let_def owners_present_def list_all_iff
          split: option.splits)
  next
    case (UpdateImageGenerated imageId url dur blobId)
    with s st show ?thesis
      by (auto simp: updateImageGenerated_def owners_present_def list_all_iff)
  next
    case (UpdateImageError imageId err)
    with s st show ?thesis
      by (auto simp: updateImageError_def owners_present_def list_all_iff)
  next
    case (DeleteConfig cid)
    with s st show ?thesis
      by (auto simp: deleteConfig_def Let_def owners_present_def list_all_iff)
  next
    case ClearAll
    with st show ?thesis by (simp add: clearAll_def owners_present_def)
  qed (use st o in \<open>simp_all add: clearEditing_def setEditingModified_def setLightboxImage_def
      setStorageLimitState_def clearStorageLimitState_def owners_present_def\<close>)
qed

lemma owners_present_run: "owners_present (fst st) \<Longrightarrow> owners_present (fst (run acts st))"
  by (induction acts arbitrary: st) (simp_all add: owners_present_step)

lemma owners_present_initial: "owners_present initial_state"
  by (simp add: owners_present_def initial_state_def)

lemma deleteConfig_unknown:
  assumes "owners_present s" and "c \<notin> node_id ` set (configNodes s)"
  shows "deleteConfig c (s, db) = (s, db)"
proof -
  from assms have i: "\<forall>n\<in>set (imageNodes s). configId (data n) \<noteq> c"
    by (auto simp: owners_present_def list_all_iff)
  then have "filter (\<lambda>n. configId (data n) \<noteq> c) (imageNodes s) = imageNodes s"
    by (simp add: filter_id_conv)
  moreover from assms(2) have "filter (\<lambda>n. node_id n \<noteq> c) (configNodes s) = configNodes s"
    by (auto simp: filter_id_conv)
  moreover from i have "deleteConfig_blobIds c s = []"
    by (auto simp: deleteConfig_blobIds_def filter_empty_conv)
  ultimately show ?thesis by (simp add: deleteConfig_def Let_def)
qed

lemma set_deleteConfig_blobIds:
  "set (deleteConfig_blobIds c s) =
     {b. b \<noteq> [] \<and> (\<exists>n\<in>set (imageNodes s). configId (data n) = c \<and> imageBlobId (data n) = Some b)}"
proof (intro set_eqI iffI)
  fix b assume "b \<in> set (deleteConfig_blobIds c s)"
  then obtain n where "n \<in> set (imageNodes s)" "configId (data n) = c"
    "truthy (imageBlobId (data n))" "b = the (imageBlobId (data n))"
    by (auto simp: deleteConfig_blobIds_def)
  then show "b \<in> {b. b \<noteq> [] \<and>
      (\<exists>n\<in>set (imageNodes s). configId (data n) = c \<and> imageBlobId (data n) = Some b)}"
    by (cases "imageBlobId (data n)") (auto simp: truthy_def)
next
  fix b assume "b \<in> {b. b \<noteq> [] \<and>
      (\<exists>n\<in>set (imageNodes s). configId (data n) = c \<and> imageBlobId (data n) = Some b)}"
  then obtain n where n: "b \<noteq> []" "n \<in> set (imageNodes s)" "configId (data n) = c"
    "imageBlobId (data n) = Some b" by auto
  then have "truthy (imageBlobId (data n))" by (simp add: truthy_def)
  with n show "b \<in> set (deleteConfig_blobIds c s)"
    by (force simp: deleteConfig_blobIds_def image_iff)
qed

lemma length_imageNodes_step:
  assumes "\<not> deletes a"
  shows "int (length (imageNodes (fst (step a st)))) =
     int (length (imageNodes (fst st))) + sum_list (map (max 0) (confirmed_batchCounts [a] st))"
proof -
  obtain s db where st: "st = (s, db)" by (cases st)
  show ?thesis
  proof (cases a)
    case ConfirmConfig
    show ?thesis
    proof (cases "previewConfig s")
      case None
      with ConfirmConfig st show ?thesis by (simp add: confirmConfig_None)
    next
      case (Some p)
      with ConfirmConfig st show ?thesis
        by (simp add: confirmConfig_Some length_created_by)
    qed
  next
    case (SetPreviewConfig config now)
    with st show ?thesis by (cases config) (simp_all add: setPreviewConfig_def)
  next
    case (LoadConfigForEditing cid)
    with st show ?thesis by (simp add: loadConfigForEditing_def split: option.splits)
  next
    case (UpdateConfigPosition cid x y)
    with st show ?thesis by (simp add: updateConfigPosition_def Let_def split: option.splits)
  next
    case (DeleteConfig cid)
    with assms show ?thesis by simp
  next
    case ClearAll
    with assms show ?thesis by simp
  qed (use st in \<open>simp_all add: clearEditing_def setEditingModified_def updateImageGenerated_def
      updateImageError_def setLightboxImage_def setStorageLimitState_def
      clearStorageLimitState_def\<close>)
qed

lemma confirmed_batchCounts_Cons:
  "confirmed_batchCounts (a # acts) st =
     confirmed_batchCounts [a] st @ confirmed_batchCounts acts (step a st)"
  by (cases a) simp_all

lemma length_imageNodes_run:
  "deletes_nothing acts \<Longrightarrow>
   int (length (imageNodes (fst (run acts st)))) =
     int (length (imageNodes (fst st))) + sum_list (map (max 0) (confirmed_batchCounts acts st))"
proof (induction acts arbitrary: st)
  case Nil
  then show ?case by simp
next
  case (Cons a acts)
  from Cons.prems have a: "\<not> deletes a" and r: "deletes_nothing acts"
    by (simp_all add: deletes_nothing_def)
  show ?case
    using Cons.IH[OF r, of "step a st"] length_imageNodes_step[OF a, of st]
    by (subst confirmed_batchCounts_Cons) simp
qed

subsection \<open>Confirming a preview\<close>

lemma to_double_exact: "\<bar>n\<bar> < 2 ^ 53 \<Longrightarrow> to_double n = n"
proof -
  assume "\<bar>n\<bar> < 2 ^ 53"
  then have "nat \<bar>n\<bar> < 2 ^ 53" by (simp add: nat_less_iff)
  then have "spacing_exp (nat \<bar>n\<bar>) = 0" by (simp add: spacing_exp.simps)
  then show ?thesis by (simp add: to_double_def round_half_even_def)
qed

lemma js_add_exact: "\<bar>a + b\<bar> < 2 ^ 53 \<Longrightarrow> js_add a b = a + b"
  by (simp add: js_add_def to_double_exact)

lemmas eval_js_add = js_add_def to_double_def round_half_even_def spacing_exp.simps

lemma max_0_nonneg: "list_all (\<lambda>b. 0 \<le> b) bs \<Longrightarrow> map (max 0) bs = (bs :: int list)"
  by (induction bs) auto

text \<open>
  C1, as the code has it. With a preview \<open>p\<close> of batch count \<open>b\<close> (a count, \<open>0 \<le> b\<close>) and
  seed \<open>s\<close>, \<open>confirmConfig\<close> appends exactly one configuration node and exactly \<open>b\<close>
  image nodes, each owned by the new configuration id, clears the preview and returns
  the new id; without a preview it returns \<open>null\<close> and leaves the state as it is. The
  seed of the \<open>i\<close>-th image node is the sum of \<open>s\<close> and \<open>i\<close> as doubles add them, which
  is \<open>s + i\<close> whenever \<open>\<bar>s\<bar> + b \<le> 2^53\<close>. Consequently, over any sequence of actions
  that deletes nothing, the number of image nodes grows by the sum of the batch counts
  of the confirmed previews.
\<close>

theorem confirmConfig_creates_batch:
  "(previewConfig s = None \<longrightarrow> confirmConfig s = (None, s)) \<and>
   (\<forall>p. previewConfig s = Some p \<and> 0 \<le> batchCount p \<longrightarrow>
      (let newId = ''config-'' @ show_int (nodeIdCounter s + 1);
           s' = snd (confirmConfig s);
           created = created_images s s'
       in fst (confirmConfig s) = Some newId \<and>
          (\<exists>c. configNodes s' = configNodes s @ [c] \<and> node_id c = newId \<and>
               data c = p\<lparr>config_id := newId, isPreview := False\<rparr>) \<and>
          imageNodes s' = imageNodes s @ created \<and>
          int (length created) = batchCount p \<and>
          (\<forall>i<length created.
              configId (data (created ! i)) = newId \<and>
              image_seed (data (created ! i)) = js_add (seed p) (int i) \<and>
              (\<bar>seed p\<bar> + batchCount p \<le> 2 ^ 53 \<longrightarrow>
                 image_seed (data (created ! i)) = seed p + int i)) \<and>
          previewConfig s' = None)) \<and>
   (\<forall>acts st.
      deletes_nothing acts \<and> list_all (\<lambda>b. 0 \<le> b) (confirmed_batchCounts acts st) \<longrightarrow>
      int (length (imageNodes (fst (run acts st)))) =
        int (length (imageNodes (fst st))) + sum_list (confirmed_batchCounts acts st))"
proof (intro conjI allI impI)
  assume "previewConfig s = None"
  then show "confirmConfig s = (None, s)" by (rule confirmConfig_None)
next
  fix p assume "previewConfig s = Some p \<and> 0 \<le> batchCount p"
  then have p: "previewConfig s = Some p" and b: "0 \<le> batchCount p" by simp_all
  have c: "created_images s (snd (confirmConfig s)) = created_by s p"
    using p by (rule created_images_confirm)
  have exact: "js_add (seed p) (int i) = seed p + int i"
    if "i < length (created_by s p)" "\<bar>seed p\<bar> + batchCount p \<le> 2 ^ 53" for i
  proof -
    from that(1) have "int i < batchCount p" by (simp add: length_created_by)
    with that(2) have "\<bar>seed p + int i\<bar> < 2 ^ 53" by linarith
    then show ?thesis by (rule js_add_exact)
  qed
  show "let newId = ''config-'' @ show_int (nodeIdCounter s + 1);
           s' = snd (confirmConfig s);
           created = created_images s s'
       in fst (confirmConfig s) = Some newId \<and>
          (\<exists>c. configNodes s' = configNodes s @ [c] \<and> node_id c = newId \<and>
               data c = p\<lparr>config_id := newId, isPreview := False\<rparr>) \<and>
          imageNodes s' = imageNodes s @ created \<and>
          int (length created) = batchCount p \<and>
          (\<forall>i<length created.
              configId (data (created ! i)) = newId \<and>
              image_seed (data (created ! i)) = js_add (seed p) (int i) \<and>
              (\<bar>seed p\<bar> + batchCount p \<le> 2 ^ 53 \<longrightarrow>
                 image_seed (data (created ! i)) = seed p + int i)) \<and>
          previewConfig s' = None"
    unfolding Let_def c
    using created_by_fields[of _ s p] exact b
    by (simp add: confirmConfig_Some[OF p] length_created_by)
next
  fix acts st
  assume "deletes_nothing acts \<and> list_all (\<lambda>b. 0 \<le> b) (confirmed_batchCounts acts st)"
  then show "int (length (imageNodes (fst (run acts st)))) =
      int (length (imageNodes (fst st))) + sum_list (confirmed_batchCounts acts st)"
    using length_imageNodes_run[of acts st] by (simp add: max_0_nonneg)
qed

theorem confirmConfig_creates_batch_witness:
  "map_option batchCount (previewConfig preview_cat3) = Some 3 \<and>
   fst (confirmConfig preview_cat3) = Some ''config-1'' \<and>
   map (\<lambda>n. (configId (data n), image_seed (data n)))
     (created_images preview_cat3 (snd (confirmConfig preview_cat3))) =
     [(''config-1'', 10), (''config-1'', 11), (''config-1'', 12)] \<and>
   previewConfig (snd (confirmConfig preview_cat3)) = None \<and>
   confirmConfig initial_state = (None, initial_state) \<and>
   deletes_nothing two_confirms \<and>
   confirmed_batchCounts two_confirms (initial_state, empty_db) = [3, 2] \<and>
   length (imageNodes (fst (run two_confirms (initial_state, empty_db)))) = 5"
proof -
  note t = confirmConfig_creates_batch[of preview_cat3]
  note u = confirmConfig_creates_batch[of initial_state]
  have d: "deletes_nothing two_confirms"
    by (simp add: deletes_nothing_def two_confirms_def)
  have b: "confirmed_batchCounts two_confirms (initial_state, empty_db) = [3, 2]"
    by (simp add: two_confirms_def cat3_def dog2_def eval_flow)
  from t d b have "int (length (imageNodes (fst (run two_confirms (initial_state, empty_db))))) =
      int (length (imageNodes (fst (initial_state, empty_db)))) +
      sum_list (confirmed_batchCounts two_confirms (initial_state, empty_db))"
    by simp
  moreover have "length (imageNodes (fst (initial_state, empty_db))) = 0"
    by (simp add: initial_state_def)
  ultimately have l: "length (imageNodes (fst (run two_confirms (initial_state, empty_db)))) = 5"
    unfolding b by simp
  have n: "previewConfig initial_state = None" by (simp add: initial_state_def)
  with u have c: "confirmConfig initial_state = (None, initial_state)" by blast
  obtain p where p: "previewConfig preview_cat3 = Some p" "batchCount p = 3" "seed p = 10"
    by (simp add: preview_cat3_def setPreviewConfig_def cat3_def)
  let ?created = "created_images preview_cat3 (snd (confirmConfig preview_cat3))"
  from p have hyp: "previewConfig preview_cat3 = Some p \<and> 0 \<le> batchCount p" by simp
  note r = t[THEN conjunct2, THEN conjunct1, rule_format, OF hyp, unfolded Let_def]
  have k: "''config-'' @ show_int (nodeIdCounter preview_cat3 + 1) = ''config-1''"
    by (simp add: preview_cat3_def setPreviewConfig_def initial_state_def show_int_def
        digits.simps digit_char_def)
  have r1: "fst (confirmConfig preview_cat3) = Some ''config-1''"
    using r[THEN conjunct1] unfolding k .
  have "int (length ?created) = batchCount p"
    using r[THEN conjunct2, THEN conjunct2, THEN conjunct2, THEN conjunct1] .
  with p have len: "length ?created = 3" by simp
  note each = r[THEN conjunct2, THEN conjunct2, THEN conjunct2, THEN conjunct2, THEN conjunct1,
      rule_format]
  have bound: "\<bar>seed p\<bar> + batchCount p \<le> 2 ^ 53" using p by simp
  have f: "configId (data (?created ! i)) = ''config-1'' \<and>
      image_seed (data (?created ! i)) = 10 + int i" if "i < 3" for i
  proof -
    from that len have i: "i < length ?created" by simp
    from each[OF i, THEN conjunct1] k have "configId (data (?created ! i)) = ''config-1''"
      by simp
    moreover from each[OF i, THEN conjunct2, THEN conjunct2, rule_format, OF bound] p
    have "image_seed (data (?created ! i)) = 10 + int i" by simp
    ultimately show ?thesis by simp
  qed
  from f[of 0] f[of 1] f[of 2] have
    "(configId (data (?created ! 0)), image_seed (data (?created ! 0))) = (''config-1'', 10)"
    "(configId (data (?created ! 1)), image_seed (data (?created ! 1))) = (''config-1'', 11)"
    "(configId (data (?created ! 2)), image_seed (data (?created ! 2))) = (''config-1'', 12)"
    by simp_all
  with len have e: "map (\<lambda>n. (configId (data n), image_seed (data n))) ?created =
      [(''config-1'', 10), (''config-1'', 11), (''config-1'', 12)]"
    by (auto simp: length_Suc_conv numeral_3_eq_3)
  have r4: "previewConfig (snd (confirmConfig preview_cat3)) = None"
    using r[THEN conjunct2, THEN conjunct2, THEN conjunct2, THEN conjunct2, THEN conjunct2] .
  from p r1 e r4 c d b l show ?thesis by simp
qed

text \<open>
  The claim as the specification states it gives image \<open>i\<close> the seed \<open>s + i\<close> for every
  seed. With the seed \<open>2^53\<close> and a batch count of 4 the seeds are \<open>s\<close>, \<open>s\<close>, \<open>s + 2\<close>
  and \<open>s + 4\<close>: the second image node has the seed of the first.
\<close>

theorem confirmConfig_big_seed_counterexample:
  "map_option seed (previewConfig preview_big_seed) = Some 9007199254740992 \<and>
   map_option batchCount (previewConfig preview_big_seed) = Some 4 \<and>
   map (\<lambda>n. image_seed (data n))
     (created_images preview_big_seed (snd (confirmConfig preview_big_seed))) =
     [9007199254740992, 9007199254740992, 9007199254740994, 9007199254740996] \<and>
   image_seed (data (created_images preview_big_seed (snd (confirmConfig preview_big_seed)) ! 1))
     \<noteq> 9007199254740992 + 1"
  by (simp add: preview_big_seed_def big_seed_def eval_flow created_images_def eval_js_add)

text \<open>
  C6. When \<open>confirmConfig\<close> succeeds with \<open>n\<close> configuration nodes present, the new
  configuration node is placed at \<open>(100 + n * 350, 100)\<close> and its \<open>i\<close>-th image node at
  \<open>(configX, configY + 220 + i * 280)\<close>; for a batch count of 3 these are
  \<open>(configX, configY + 220)\<close>, \<open>(configX, configY + 500)\<close> and \<open>(configX, configY + 780)\<close>.
\<close>

theorem confirmConfig_layout:
  "previewConfig s = Some p \<Longrightarrow>
   (let n = length (configNodes s);
        s' = snd (confirmConfig s);
        c = last (configNodes s');
        created = created_images s s'
    in length (configNodes s') = n + 1 \<and>
       position c = \<lparr>pos_x = 100 + real n * 350, pos_y = 100\<rparr> \<and>
       (\<forall>i<length created.
           position (created ! i) =
             \<lparr>pos_x = pos_x (position c), pos_y = pos_y (position c) + 220 + real i * 280\<rparr>) \<and>
       (batchCount p = 3 \<longrightarrow>
          map position created =
            [\<lparr>pos_x = pos_x (position c), pos_y = pos_y (position c) + 220\<rparr>,
             \<lparr>pos_x = pos_x (position c), pos_y = pos_y (position c) + 500\<rparr>,
             \<lparr>pos_x = pos_x (position c), pos_y = pos_y (position c) + 780\<rparr>]))"
proof -
  assume p: "previewConfig s = Some p"
  have c: "created_images s (snd (confirmConfig s)) = created_by s p"
    using p by (rule created_images_confirm)
  have pos: "getNextConfigPosition s = \<lparr>pos_x = 100 + real (length (configNodes s)) * 350, pos_y = 100\<rparr>"
    by (simp add: getNextConfigPosition_def Let_def FIRST_CONFIG_X_def FIRST_CONFIG_Y_def
        CONFIG_SPACING_def)
  have l: "last (configNodes (snd (confirmConfig s))) =
      \<lparr>node_id = ''config-'' @ show_int (nodeIdCounter s + 1), node_type = ''configNode'',
       position = getNextConfigPosition s,
       data = p\<lparr>config_id := ''config-'' @ show_int (nodeIdCounter s + 1), isPreview := False\<rparr>,
       draggable = True\<rparr>"
    by (simp add: confirmConfig_Some[OF p])
  have n: "length (configNodes (snd (confirmConfig s))) = length (configNodes s) + 1"
    by (simp add: confirmConfig_Some[OF p])
  have each: "position (created_by s p ! i) =
      \<lparr>pos_x = 100 + real (length (configNodes s)) * 350,
       pos_y = 100 + 220 + real i * 280\<rparr>" if "i < length (created_by s p)" for i
    using created_by_fields[OF that]
    by (simp add: pos IMAGE_OFFSET_Y_def IMAGE_SPACING_Y_def)
  have three: "map position (created_by s p) =
      [\<lparr>pos_x = 100 + real (length (configNodes s)) * 350, pos_y = 100 + 220\<rparr>,
       \<lparr>pos_x = 100 + real (length (configNodes s)) * 350, pos_y = 100 + 500\<rparr>,
       \<lparr>pos_x = 100 + real (length (configNodes s)) * 350, pos_y = 100 + 780\<rparr>]"
    if "batchCount p = 3"
    using that
    by (simp add: created_by_def upto.simps newImageNode_def Let_def pos
        IMAGE_OFFSET_Y_def IMAGE_SPACING_Y_def)
  show ?thesis
    unfolding Let_def c l n using each three by (simp add: pos)
qed

theorem confirmConfig_layout_witness:
  "previewConfig preview_cat3 = Some (the (previewConfig preview_cat3)) \<and>
   position (last (configNodes (snd (confirmConfig preview_cat3)))) = \<lparr>pos_x = 100, pos_y = 100\<rparr> \<and>
   map position (created_images preview_cat3 (snd (confirmConfig preview_cat3))) =
     [\<lparr>pos_x = 100, pos_y = 320\<rparr>, \<lparr>pos_x = 100, pos_y = 600\<rparr>, \<lparr>pos_x = 100, pos_y = 880\<rparr>] \<and>
   position (last (configNodes (snd (confirmConfig preview_dog2_second)))) =
     \<lparr>pos_x = 450, pos_y = 100\<rparr>"
proof -
  have p: "previewConfig preview_cat3 = Some (the (previewConfig preview_cat3))"
    by (simp add: preview_cat3_def setPreviewConfig_def)
  have q: "previewConfig preview_dog2_second = Some (the (previewConfig preview_dog2_second))"
    by (simp add: preview_dog2_second_def setPreviewConfig_def)
  have b: "batchCount (the (previewConfig preview_cat3)) = 3"
    by (simp add: preview_cat3_def setPreviewConfig_def cat3_def)
  have n: "length (configNodes preview_cat3) = 0"
    by (simp add: preview_cat3_def setPreviewConfig_def initial_state_def)
  have m: "length (configNodes preview_dog2_second) = 1"
    by (simp add: preview_dog2_second_def preview_cat3_def cat3_def eval_flow)
  note t = confirmConfig_layout[OF p, unfolded Let_def n]
  note u = confirmConfig_layout[OF q, unfolded Let_def m]
  from t have 1: "position (last (configNodes (snd (confirmConfig preview_cat3)))) =
      \<lparr>pos_x = 100, pos_y = 100\<rparr>" by simp
  from t b have "map position (created_images preview_cat3 (snd (confirmConfig preview_cat3))) =
      [\<lparr>pos_x = pos_x (position (last (configNodes (snd (confirmConfig preview_cat3))))),
        pos_y = pos_y (position (last (configNodes (snd (confirmConfig preview_cat3))))) + 220\<rparr>,
       \<lparr>pos_x = pos_x (position (last (configNodes (snd (confirmConfig preview_cat3))))),
        pos_y = pos_y (position (last (configNodes (snd (confirmConfig preview_cat3))))) + 500\<rparr>,
       \<lparr>pos_x = pos_x (position (last (configNodes (snd (confirmConfig preview_cat3))))),
        pos_y = pos_y (position (last (configNodes (snd (confirmConfig preview_cat3))))) + 780\<rparr>]"
    by blast
  then have 2: "map position (created_images preview_cat3 (snd (confirmConfig preview_cat3))) =
     [\<lparr>pos_x = 100, pos_y = 320\<rparr>, \<lparr>pos_x = 100, pos_y = 600\<rparr>, \<lparr>pos_x = 100, pos_y = 880\<rparr>]"
    unfolding 1 by simp
  from u have 3: "position (last (configNodes (snd (confirmConfig preview_dog2_second)))) =
     \<lparr>pos_x = 450, pos_y = 100\<rparr>" by simp
  from p 1 2 3 show ?thesis by blast
qed

subsection \<open>Moving a configuration\<close>

lemma at_origin_nodes:
  "map (\<lambda>n. (node_id n, position n)) (configNodes at_origin) =
     [(''config-1'', \<lparr>pos_x = 0, pos_y = 0\<rparr>)] \<and>
   map (\<lambda>n. (node_id n, configId (data n), position n)) (imageNodes at_origin) =
     [(''image-2'', ''config-1'', \<lparr>pos_x = 0, pos_y = 220\<rparr>),
      (''image-3'', ''config-1'', \<lparr>pos_x = 0, pos_y = 500\<rparr>)]"
  by (simp add: at_origin_def confirmed_dog2_def dog2_def updateConfigPosition_def eval_flow)

text \<open>
  C7. If the graph has a configuration node with id \<open>c\<close>, at position \<open>(px, py)\<close>, then
  \<open>updateConfigPosition c x y\<close> sets the position of the node \<open>c\<close> to \<open>(x, y)\<close> and adds
  \<open>(x - px, y - py)\<close> to the position of every image node owned by \<open>c\<close>; every other
  node, the data of all nodes and the rest of the state are unchanged. If the graph has
  no such node, the state is unchanged.
\<close>

theorem updateConfigPosition_translates:
  "(find (\<lambda>n. node_id n = c) (configNodes s) = None \<longrightarrow> updateConfigPosition c x y s = s) \<and>
   (\<forall>cn. find (\<lambda>n. node_id n = c) (configNodes s) = Some cn \<longrightarrow>
      (let s' = updateConfigPosition c x y s;
           dx = x - pos_x (position cn);
           dy = y - pos_y (position cn)
       in length (configNodes s') = length (configNodes s) \<and>
          length (imageNodes s') = length (imageNodes s) \<and>
          (\<forall>i<length (configNodes s).
              configNodes s' ! i =
                (if node_id (configNodes s ! i) = c
                 then (configNodes s ! i)\<lparr>position := \<lparr>pos_x = x, pos_y = y\<rparr>\<rparr>
                 else configNodes s ! i)) \<and>
          (\<forall>i<length (imageNodes s).
              imageNodes s' ! i =
                (if configId (data (imageNodes s ! i)) = c
                 then (imageNodes s ! i)\<lparr>position :=
                        \<lparr>pos_x = pos_x (position (imageNodes s ! i)) + dx,
                         pos_y = pos_y (position (imageNodes s ! i)) + dy\<rparr>\<rparr>
                 else imageNodes s ! i)) \<and>
          map data (configNodes s') = map data (configNodes s) \<and>
          map data (imageNodes s') = map data (imageNodes s) \<and>
          s' = s\<lparr>configNodes := configNodes s', imageNodes := imageNodes s'\<rparr>))"
proof (intro conjI allI impI)
  assume "find (\<lambda>n. node_id n = c) (configNodes s) = None"
  then show "updateConfigPosition c x y s = s" by (simp add: updateConfigPosition_def)
next
  fix cn assume f: "find (\<lambda>n. node_id n = c) (configNodes s) = Some cn"
  have d1: "map data (map (\<lambda>n. if node_id n = c then n\<lparr>position := q\<rparr> else n) ns) = map data ns"
    for q and ns :: "ConfigData Node list"
    by (induction ns) auto
  have d2: "map data (map (\<lambda>n. if configId (data n) = c then n\<lparr>position := q n\<rparr> else n) ns) = map data ns"
    for q and ns :: "ImageData Node list"
    by (induction ns) auto
  show "let s' = updateConfigPosition c x y s;
           dx = x - pos_x (position cn);
           dy = y - pos_y (position cn)
       in length (configNodes s') = length (configNodes s) \<and>
          length (imageNodes s') = length (imageNodes s) \<and>
          (\<forall>i<length (configNodes s).
              configNodes s' ! i =
                (if node_id (configNodes s ! i) = c
                 then (configNodes s ! i)\<lparr>position := \<lparr>pos_x = x, pos_y = y\<rparr>\<rparr>
                 else configNodes s ! i)) \<and>
          (\<forall>i<length (imageNodes s).
              imageNodes s' ! i =
                (if configId (data (imageNodes s ! i)) = c
                 then (imageNodes s ! i)\<lparr>position :=
                        \<lparr>pos_x = pos_x (position (imageNodes s ! i)) + dx,
                         pos_y = pos_y (position (imageNodes s ! i)) + dy\<rparr>\<rparr>
                 else imageNodes s ! i)) \<and>
          map data (configNodes s') = map data (configNodes s) \<and>
          map data (imageNodes s') = map data (imageNodes s) \<and>
          s' = s\<lparr>configNodes := configNodes s', imageNodes := imageNodes s'\<rparr>"
    using f by (simp add: updateConfigPosition_def Let_def d1 d2)
qed

theorem updateConfigPosition_translates_witness:
  "map position (configNodes at_origin) = [\<lparr>pos_x = 0, pos_y = 0\<rparr>] \<and>
   map position (imageNodes at_origin) = [\<lparr>pos_x = 0, pos_y = 220\<rparr>, \<lparr>pos_x = 0, pos_y = 500\<rparr>] \<and>
   map position (configNodes (updateConfigPosition ''config-1'' 10 20 at_origin)) =
     [\<lparr>pos_x = 10, pos_y = 20\<rparr>] \<and>
   map position (imageNodes (updateConfigPosition ''config-1'' 10 20 at_origin)) =
     [\<lparr>pos_x = 10, pos_y = 240\<rparr>, \<lparr>pos_x = 10, pos_y = 520\<rparr>] \<and>
   updateConfigPosition ''config-7'' 10 20 at_origin = at_origin"
proof -
  obtain cn where cn: "configNodes at_origin = [cn]" "node_id cn = ''config-1''"
    "position cn = \<lparr>pos_x = 0, pos_y = 0\<rparr>"
    using at_origin_nodes by auto
  obtain i2 i3 where im: "imageNodes at_origin = [i2, i3]"
    "configId (data i2) = ''config-1''" "configId (data i3) = ''config-1''"
    "position i2 = \<lparr>pos_x = 0, pos_y = 220\<rparr>" "position i3 = \<lparr>pos_x = 0, pos_y = 500\<rparr>"
    using at_origin_nodes by auto
  have f: "find (\<lambda>n. node_id n = ''config-1'') (configNodes at_origin) = Some cn"
    by (simp add: cn)
  have g: "find (\<lambda>n. node_id n = ''config-7'') (configNodes at_origin) = None"
    by (simp add: cn)
  note t = updateConfigPosition_translates[of "''config-1''" at_origin 10 20]
  note u = updateConfigPosition_translates[of "''config-7''" at_origin 10 20]
  from u g have 5: "updateConfigPosition ''config-7'' 10 20 at_origin = at_origin" by blast
  let ?s' = "updateConfigPosition ''config-1'' 10 20 at_origin"
  from t f have all: "length (configNodes ?s') = length (configNodes at_origin) \<and>
      length (imageNodes ?s') = length (imageNodes at_origin) \<and>
      (\<forall>i<length (configNodes at_origin).
          configNodes ?s' ! i =
            (if node_id (configNodes at_origin ! i) = ''config-1''
             then (configNodes at_origin ! i)\<lparr>position := \<lparr>pos_x = 10, pos_y = 20\<rparr>\<rparr>
             else configNodes at_origin ! i)) \<and>
      (\<forall>i<length (imageNodes at_origin).
          imageNodes ?s' ! i =
            (if configId (data (imageNodes at_origin ! i)) = ''config-1''
             then (imageNodes at_origin ! i)\<lparr>position :=
                    \<lparr>pos_x = pos_x (position (imageNodes at_origin ! i)) + (10 - pos_x (position cn)),
                     pos_y = pos_y (position (imageNodes at_origin ! i)) + (20 - pos_y (position cn))\<rparr>\<rparr>
             else imageNodes at_origin ! i))"
    unfolding Let_def by blast
  then have c0: "configNodes ?s' ! 0 = cn\<lparr>position := \<lparr>pos_x = 10, pos_y = 20\<rparr>\<rparr>"
    and lc: "length (configNodes ?s') = 1"
    by (simp_all add: cn)
  from all have i0: "imageNodes ?s' ! 0 = i2\<lparr>position := \<lparr>pos_x = 10, pos_y = 240\<rparr>\<rparr>"
    and i1: "imageNodes ?s' ! 1 = i3\<lparr>position := \<lparr>pos_x = 10, pos_y = 520\<rparr>\<rparr>"
    and li: "length (imageNodes ?s') = 2"
    by (simp_all add: im cn)
  from lc c0 have 3: "map position (configNodes ?s') = [\<lparr>pos_x = 10, pos_y = 20\<rparr>]"
    by (cases "configNodes ?s'") simp_all
  from li i0 i1 have 4: "map position (imageNodes ?s') =
      [\<lparr>pos_x = 10, pos_y = 240\<rparr>, \<lparr>pos_x = 10, pos_y = 520\<rparr>]"
    by (auto simp: length_Suc_conv numeral_2_eq_2)
  from cn im 3 4 5 show ?thesis by simp
qed

subsection \<open>Deleting a configuration\<close>

lemma generated_one_state:
  "map node_id (configNodes (fst (run generated_one (initial_state, two_stored)))) = [''config-1''] \<and>
   map (\<lambda>n. (configId (data n), imageBlobId (data n)))
     (imageNodes (fst (run generated_one (initial_state, two_stored)))) =
     [(''config-1'', Some ''image-2''), (''config-1'', None)] \<and>
   snd (run generated_one (initial_state, two_stored)) = two_stored"
  by (simp add: generated_one_def dog2_def updateImageGenerated_def eval_flow)

lemma two_stored_db:
  "map meta_id (meta two_stored) = [''image-2'', ''other''] \<and>
   blobs two_stored ''image-2'' = Some [1, 2, 3] \<and> blobs two_stored ''other'' = Some [4, 5]"
  by (simp add: two_stored_def storeBlob_def empty_db_def meta_put_def)

text \<open>
  C2. \<open>deleteConfig c\<close> removes the configuration node \<open>c\<close> and exactly the image nodes
  owned by \<open>c\<close>, leaves the rest of the state as it is, and deletes from the blob
  database exactly the blob references held by the removed image nodes (an
  \<open>imageBlobId\<close> that is undefined or the empty string is no reference, as everywhere in
  the application); every other record and binary stays. In every state reachable from
  the initial one, if \<open>c\<close> is not the id of a configuration node, the call changes
  neither the graph nor the database.
\<close>

theorem deleteConfig_cascade:
  "(let s' = fst (deleteConfig c (s, db));
        db' = snd (deleteConfig c (s, db));
        removed = filter (\<lambda>n. configId (data n) = c) (imageNodes s);
        refs = deleteConfig_blobIds c s
    in configNodes s' = filter (\<lambda>n. node_id n \<noteq> c) (configNodes s) \<and>
       imageNodes s' = filter (\<lambda>n. configId (data n) \<noteq> c) (imageNodes s) \<and>
       s' = s\<lparr>configNodes := configNodes s', imageNodes := imageNodes s'\<rparr> \<and>
       set refs = {b. b \<noteq> [] \<and> (\<exists>n\<in>set removed. imageBlobId (data n) = Some b)} \<and>
       db' = deleteBlobs refs db \<and>
       meta db' = filter (\<lambda>m. meta_id m \<notin> set refs) (meta db) \<and>
       (\<forall>i. blobs db' i = (if i \<in> set refs then None else blobs db i))) \<and>
   (\<forall>acts db0. c \<notin> node_id ` set (configNodes (fst (run acts (initial_state, db0)))) \<longrightarrow>
      deleteConfig c (run acts (initial_state, db0)) = run acts (initial_state, db0))"
proof (intro conjI allI impI)
  have db': "snd (deleteConfig c (s, db)) = deleteBlobs (deleteConfig_blobIds c s) db"
    by (cases "deleteConfig_blobIds c s") (simp_all add: deleteConfig_def Let_def)
  show "let s' = fst (deleteConfig c (s, db));
        db' = snd (deleteConfig c (s, db));
        removed = filter (\<lambda>n. configId (data n) = c) (imageNodes s);
        refs = deleteConfig_blobIds c s
    in configNodes s' = filter (\<lambda>n. node_id n \<noteq> c) (configNodes s) \<and>
       imageNodes s' = filter (\<lambda>n. configId (data n) \<noteq> c) (imageNodes s) \<and>
       s' = s\<lparr>configNodes := configNodes s', imageNodes := imageNodes s'\<rparr> \<and>
       set refs = {b. b \<noteq> [] \<and> (\<exists>n\<in>set removed. imageBlobId (data n) = Some b)} \<and>
       db' = deleteBlobs refs db \<and>
       meta db' = filter (\<lambda>m. meta_id m \<notin> set refs) (meta db) \<and>
       (\<forall>i. blobs db' i = (if i \<in> set refs then None else blobs db i))"
    unfolding Let_def db' set_deleteConfig_blobIds
    by (auto simp: deleteConfig_def Let_def meta_deleteBlobs blobs_deleteBlobs
        set_deleteConfig_blobIds)
next
  fix acts db0
  assume c: "c \<notin> node_id ` set (configNodes (fst (run acts (initial_state, db0))))"
  obtain s1 db1 where r: "run acts (initial_state, db0) = (s1, db1)"
    by (cases "run acts (initial_state, db0)")
  have "owners_present (fst (run acts (initial_state, db0)))"
    by (rule owners_present_run) (simp add: owners_present_initial)
  with r c have "deleteConfig c (s1, db1) = (s1, db1)"
    by (intro deleteConfig_unknown) simp_all
  with r show "deleteConfig c (run acts (initial_state, db0)) = run acts (initial_state, db0)"
    by simp
qed

theorem deleteConfig_cascade_witness:
  "map node_id (configNodes (fst (run generated_one (initial_state, two_stored)))) = [''config-1''] \<and>
   deleteConfig_blobIds ''config-1'' (fst (run generated_one (initial_state, two_stored))) =
     [''image-2''] \<and>
   configNodes (fst (deleteConfig ''config-1'' (run generated_one (initial_state, two_stored)))) = [] \<and>
   imageNodes (fst (deleteConfig ''config-1'' (run generated_one (initial_state, two_stored)))) = [] \<and>
   map meta_id (meta (snd (deleteConfig ''config-1'' (run generated_one (initial_state, two_stored)))))
     = [''other''] \<and>
   blobs (snd (deleteConfig ''config-1'' (run generated_one (initial_state, two_stored)))) ''image-2''
     = None \<and>
   blobs (snd (deleteConfig ''config-1'' (run generated_one (initial_state, two_stored)))) ''other''
     = Some [4, 5] \<and>
   deleteConfig ''config-9'' (run generated_one (initial_state, two_stored)) =
     run generated_one (initial_state, two_stored)"
proof -
  obtain s where st: "run generated_one (initial_state, two_stored) = (s, two_stored)"
    using generated_one_state by (cases "run generated_one (initial_state, two_stored)") auto
  from generated_one_state st have c: "map node_id (configNodes s) = [''config-1'']"
    and i: "map (\<lambda>n. (configId (data n), imageBlobId (data n))) (imageNodes s) =
      [(''config-1'', Some ''image-2''), (''config-1'', None)]"
    by simp_all
  from i obtain n1 n2 where n: "imageNodes s = [n1, n2]"
    "configId (data n1) = ''config-1''" "imageBlobId (data n1) = Some ''image-2''"
    "configId (data n2) = ''config-1''" "imageBlobId (data n2) = None"
    by auto
  from c obtain c1 where c1: "configNodes s = [c1]" "node_id c1 = ''config-1''" by auto
  have refs: "deleteConfig_blobIds ''config-1'' s = [''image-2'']"
    by (simp add: deleteConfig_blobIds_def n truthy_def)
  note t = deleteConfig_cascade[of "''config-1''" s two_stored, unfolded Let_def refs]
  note u = deleteConfig_cascade[of "''config-9''" s two_stored]
  from t have 1: "configNodes (fst (deleteConfig ''config-1'' (s, two_stored))) = []"
    by (simp add: c1)
  from t have 2: "imageNodes (fst (deleteConfig ''config-1'' (s, two_stored))) = []"
    by (simp add: n)
  from t have m: "meta (snd (deleteConfig ''config-1'' (s, two_stored))) =
      filter (\<lambda>m. meta_id m \<notin> set [''image-2'']) (meta two_stored)"
    by blast
  have 3: "map meta_id (meta (snd (deleteConfig ''config-1'' (s, two_stored)))) = [''other'']"
    unfolding m by (simp add: two_stored_def storeBlob_def empty_db_def meta_put_def)
  from t have b: "\<forall>i. blobs (snd (deleteConfig ''config-1'' (s, two_stored))) i =
      (if i \<in> set [''image-2''] then None else blobs two_stored i)"
    by blast
  have 4: "blobs (snd (deleteConfig ''config-1'' (s, two_stored))) ''image-2'' = None"
    using b[rule_format, of "''image-2''"] by simp
  have 5: "blobs (snd (deleteConfig ''config-1'' (s, two_stored))) ''other'' = Some [4, 5]"
    using b[rule_format, of "''other''"] two_stored_db by simp
  have "''config-9'' \<notin> node_id ` set (configNodes (fst (run generated_one (initial_state, two_stored))))"
    by (simp add: st c1)
  with u have 6: "deleteConfig ''config-9'' (run generated_one (initial_state, two_stored)) =
      run generated_one (initial_state, two_stored)"
    by blast
  from c refs 1 2 3 4 5 6 show ?thesis unfolding st by simp
qed

subsection \<open>Distinct identifiers\<close>

text \<open>
  C10, as the code has it. In every state reachable from the initial state by a
  sequence of actions whose previews all have a batch count of at least 0, the ids of
  all configuration nodes and image nodes are pairwise distinct. In such a state
  \<open>confirmConfig\<close> gives the new configuration node the number \<open>counter + 1\<close> and the new
  image nodes the numbers from \<open>counter + 2\<close> to \<open>counter + 1 + batchCount\<close>, and sets
  the counter to \<open>counter + 1 + batchCount\<close>, the largest number given out; \<open>clearAll\<close>
  sets the counter to 0 and empties the graph in the same step.
\<close>

theorem node_ids_distinct:
  "nonneg_batches acts \<Longrightarrow>
   (let s = fst (run acts (initial_state, db)) in
      distinct (map node_id (configNodes s) @ map node_id (imageNodes s)) \<and>
      (\<forall>p. previewConfig s = Some p \<longrightarrow>
         (let s' = snd (confirmConfig s) in
            0 \<le> batchCount p \<and>
            map node_id (configNodes s') =
              map node_id (configNodes s) @ [''config-'' @ show_int (nodeIdCounter s + 1)] \<and>
            map node_id (imageNodes s') =
              map node_id (imageNodes s) @
              map (\<lambda>i. ''image-'' @ show_int (nodeIdCounter s + 2 + i)) [0..batchCount p - 1] \<and>
            nodeIdCounter s' = nodeIdCounter s + 1 + batchCount p)) \<and>
      configNodes (fst (clearAll (s, db'))) = [] \<and>
      imageNodes (fst (clearAll (s, db'))) = [] \<and>
      nodeIdCounter (fst (clearAll (s, db'))) = 0)"
proof -
  assume "nonneg_batches acts"
  then have inv: "ids_inv (fst (run acts (initial_state, db)))"
    by (intro ids_inv_run) (simp_all add: ids_inv_initial)
  let ?s = "fst (run acts (initial_state, db))"
  have 1: "distinct (map node_id (configNodes ?s) @ map node_id (imageNodes ?s))"
    using inv by (rule ids_inv_all_distinct)
  have 2: "0 \<le> batchCount p \<and>
      map node_id (configNodes (snd (confirmConfig ?s))) =
        map node_id (configNodes ?s) @ [''config-'' @ show_int (nodeIdCounter ?s + 1)] \<and>
      map node_id (imageNodes (snd (confirmConfig ?s))) =
        map node_id (imageNodes ?s) @
        map (\<lambda>i. ''image-'' @ show_int (nodeIdCounter ?s + 2 + i)) [0..batchCount p - 1] \<and>
      nodeIdCounter (snd (confirmConfig ?s)) = nodeIdCounter ?s + 1 + batchCount p"
    if "previewConfig ?s = Some p" for p
    using inv that
    by (simp add: confirmConfig_Some[OF that] map_node_id_created_by ids_inv_def)
  have 3: "configNodes (fst (clearAll (?s, db'))) = [] \<and>
      imageNodes (fst (clearAll (?s, db'))) = [] \<and>
      nodeIdCounter (fst (clearAll (?s, db'))) = 0"
    by (simp add: clearAll_def)
  from 1 2 3 show ?thesis unfolding Let_def by blast
qed

theorem node_ids_distinct_witness:
  "nonneg_batches two_confirms \<and>
   map node_id (configNodes (fst (run two_confirms (initial_state, empty_db)))) =
     [''config-1'', ''config-5''] \<and>
   map node_id (imageNodes (fst (run two_confirms (initial_state, empty_db)))) =
     [''image-2'', ''image-3'', ''image-4'', ''image-6'', ''image-7''] \<and>
   distinct (map node_id (configNodes (fst (run two_confirms (initial_state, empty_db)))) @
             map node_id (imageNodes (fst (run two_confirms (initial_state, empty_db)))))"
proof -
  have n: "nonneg_batches two_confirms"
    by (simp add: nonneg_batches_def two_confirms_def cat3_def dog2_def)
  have "map node_id (configNodes (fst (run two_confirms (initial_state, empty_db)))) =
      [''config-1'', ''config-5''] \<and>
    map node_id (imageNodes (fst (run two_confirms (initial_state, empty_db)))) =
      [''image-2'', ''image-3'', ''image-4'', ''image-6'', ''image-7'']"
    by (simp add: two_confirms_def cat3_def dog2_def eval_flow)
  moreover have "distinct
      (map node_id (configNodes (fst (run two_confirms (initial_state, empty_db)))) @
       map node_id (imageNodes (fst (run two_confirms (initial_state, empty_db)))))"
    using node_ids_distinct[OF n, of empty_db empty_db, unfolded Let_def, THEN conjunct1] .
  ultimately show ?thesis using n by blast
qed

text \<open>
  The claim as stated covers every sequence of actions. A preview with batch count
  \<open>-1\<close> leaves the counter where it was, so confirming two such previews gives two
  configuration nodes with the id \<open>config-1\<close>.
\<close>

theorem node_ids_negative_batch_counterexample:
  "\<not> nonneg_batches negative_twice \<and>
   map node_id (configNodes (fst (run negative_twice (initial_state, empty_db)))) =
     [''config-1'', ''config-1''] \<and>
   \<not> distinct (map node_id (configNodes (fst (run negative_twice (initial_state, empty_db)))) @
               map node_id (imageNodes (fst (run negative_twice (initial_state, empty_db)))))"
proof -
  have "map node_id (configNodes (fst (run negative_twice (initial_state, empty_db)))) =
      [''config-1'', ''config-1'']"
    by (simp add: negative_twice_def negative_batch_def eval_flow)
  moreover have "\<not> nonneg_batches negative_twice"
    by (simp add: nonneg_batches_def negative_twice_def negative_batch_def)
  ultimately show ?thesis by simp
qed

end
